theory Spec2Isabelle
  imports Main "HOL-Library.Word"
begin

unbundle bit_operations_syntax

section \<open>Python values and exceptions\<close>

text \<open>
  The script \<^verbatim>\<open>experiments/data_collection.py\<close> builds dictionaries and hands them to
  \<^verbatim>\<open>json.dump\<close>. A Python object is modelled by the datatype below. A \<^verbatim>\<open>dict\<close> is an
  association list in insertion order (keys are objects, as in Python). A \<^verbatim>\<open>float\<close> is its
  IEEE-754 binary64 bit pattern. \<open>PObject\<close> stands for an object of any other class
  (a set, a bytes object, a datetime, ...). \<open>PCycle\<close> stands for a reference back to a
  list or dict that encloses it, which is what makes a structure cyclic. A \<^verbatim>\<open>str\<close> value
  of the data is the list of its code points. Text that goes to the operating system
  (a path, a printed line, the content of a file) is a HOL string, a list of bytes.
\<close>

type_synonym pystr = "nat list"

datatype pyval =
    PNone
  | PBool bool
  | PInt int
  | PFloat "64 word"
  | PStr pystr
  | PList "pyval list"
  | PTuple "pyval list"
  | PDict "(pyval \<times> pyval) list"
  | PObject
  | PCycle

datatype error =
    TypeError
  | ValueError
  | FileNotFoundError
  | FileExistsError
  | NotADirectoryError
  | IsADirectoryError
  | JSONDecodeError

section \<open>Characters and number formatting\<close>

definition dquote :: char where "dquote = CHR 0x22"
definition bslash :: char where "bslash = CHR 0x5C"
definition newline :: char where "newline = CHR 0x0A"

text \<open>A \<^verbatim>\<open>str\<close> literal of the script (all of them are ASCII) as code points.\<close>

definition str :: "string \<Rightarrow> pystr" where
  "str s = map of_char s"

definition digit_char :: "nat \<Rightarrow> char" where
  "digit_char d = char_of (48 + d)"

text \<open>\<^verbatim>\<open>str(n)\<close> for a natural number: decimal digits, no leading zero.\<close>

fun nat_str :: "nat \<Rightarrow> string" where
  "nat_str n = (if n < 10 then [digit_char n] else nat_str (n div 10) @ [digit_char (n mod 10)])"

declare nat_str.simps [simp del]

text \<open>\<^verbatim>\<open>int.__repr__\<close>, which the encoder uses for integers.\<close>

definition intstr :: "int \<Rightarrow> string" where
  "intstr i = (if i < 0 then CHR ''-'' # nat_str (nat (- i)) else nat_str (nat i))"

text \<open>The format \<^verbatim>\<open>%0wd\<close>: decimal, padded with zeros on the left to width \<open>w\<close>.\<close>

definition zero_pad :: "nat \<Rightarrow> nat \<Rightarrow> string" where
  "zero_pad w n = replicate (w - length (nat_str n)) CHR ''0'' @ nat_str n"

section \<open>The JSON encoder of \<^verbatim>\<open>json.dump(data, f, indent=2)\<close>\<close>

text \<open>
  \<^verbatim>\<open>json.dump\<close> with \<^verbatim>\<open>indent=2\<close> runs the encoder with its defaults: \<^verbatim>\<open>ensure_ascii\<close>,
  \<^verbatim>\<open>check_circular\<close> and \<^verbatim>\<open>allow_nan\<close> on, \<^verbatim>\<open>sort_keys\<close> and \<^verbatim>\<open>skipkeys\<close> off, the item
  separator \<^verbatim>\<open>","\<close> and the key separator \<^verbatim>\<open>": "\<close>. It writes the text to the file chunk
  by chunk, so an exception leaves the chunks before it in the file. The result of the
  encoder is therefore the text produced and the exception that stopped it, if any.
  Limits of the interpreter (the recursion depth, for a value nested very deeply, and
  the bound on the digits of an integer that is converted to text) are outside the model.
\<close>

type_synonym chunks = "string \<times> error option"

definition yield :: "string \<Rightarrow> chunks" where
  "yield s = (s, None)"

definition raise :: "error \<Rightarrow> chunks" where
  "raise e = ([], Some e)"

fun then_yield :: "chunks \<Rightarrow> chunks \<Rightarrow> chunks" where
  "then_yield (s, Some e) c = (s, Some e)"
| "then_yield (s, None) (t, r) = (s @ t, r)"

definition hex_digit :: "nat \<Rightarrow> char" where
  "hex_digit d = (if d < 10 then char_of (48 + d) else char_of (87 + d))"

text \<open>\<^verbatim>\<open>'\\u{0:04x}'.format(n)\<close> for a code point below \<open>0x10000\<close>.\<close>

definition u_escape :: "nat \<Rightarrow> string" where
  "u_escape n = [bslash, CHR ''u'', hex_digit (n div 4096 mod 16), hex_digit (n div 256 mod 16),
     hex_digit (n div 16 mod 16), hex_digit (n mod 16)]"

text \<open>
  \<^verbatim>\<open>ESCAPE_ASCII\<close> matches a backslash, a double quote and every character outside
  \<^verbatim>\<open>' '..'~'\<close>; \<^verbatim>\<open>ESCAPE_DCT\<close> gives the short escapes; every other match is written
  as \<^verbatim>\<open>\uXXXX\<close>, a code point from \<open>0x10000\<close> on as a surrogate pair
  (\<^verbatim>\<open>0xd800 | ((n >> 10) & 0x3ff)\<close> and \<^verbatim>\<open>0xdc00 | (n & 0x3ff)\<close> for \<^verbatim>\<open>n -= 0x10000\<close>,
  written here with division and remainder).
\<close>

definition escape_char :: "nat \<Rightarrow> string" where
  "escape_char n =
    (if n = 0x5C then [bslash, bslash]
     else if n = 0x22 then [bslash, dquote]
     else if n = 0x08 then [bslash, CHR ''b'']
     else if n = 0x0C then [bslash, CHR ''f'']
     else if n = 0x0A then [bslash, CHR ''n'']
     else if n = 0x0D then [bslash, CHR ''r'']
     else if n = 0x09 then [bslash, CHR ''t'']
     else if 32 \<le> n \<and> n \<le> 126 then [char_of n]
     else if n < 0x10000 then u_escape n
     else u_escape (0xD800 + (n - 0x10000) div 1024 mod 1024)
        @ u_escape (0xDC00 + (n - 0x10000) mod 1024))"

definition py_encode_basestring_ascii :: "pystr \<Rightarrow> string" where
  "py_encode_basestring_ascii s = dquote # concat (map escape_char s) @ [dquote]"

text \<open>
  \<^verbatim>\<open>floatstr\<close>: \<^verbatim>\<open>o != o\<close> holds for a NaN (exponent field all ones, fraction not zero);
  the two infinities are single bit patterns; every other float is written by
  \<^verbatim>\<open>float.__repr__\<close>, the shortest decimal string that reads back as the same float.
  That function is C code of the interpreter: it is the parameter \<open>frepr\<close>.
\<close>

definition is_nan :: "64 word \<Rightarrow> bool" where
  "is_nan w \<longleftrightarrow> (drop_bit 52 w AND 0x7FF = 0x7FF) \<and> (w AND 0xFFFFFFFFFFFFF \<noteq> 0)"

definition floatstr :: "(64 word \<Rightarrow> string) \<Rightarrow> 64 word \<Rightarrow> string" where
  "floatstr frepr w =
    (if is_nan w then ''NaN''
     else if w = 0x7FF0000000000000 then ''Infinity''
     else if w = 0xFFF0000000000000 then ''-Infinity''
     else frepr w)"

definition newline_indent :: "nat \<Rightarrow> string" where
  "newline_indent lvl = newline # replicate (2 * lvl) CHR '' ''"

text \<open>
  The text of a dictionary key: a \<^verbatim>\<open>str\<close> is taken as it is; a float, a bool, \<^verbatim>\<open>None\<close>
  and an int are converted (in this order of tests); any other key raises \<^verbatim>\<open>TypeError\<close>.
\<close>

fun key_text :: "(64 word \<Rightarrow> string) \<Rightarrow> pyval \<Rightarrow> pystr option" where
  "key_text frepr (PStr s) = Some s"
| "key_text frepr (PFloat w) = Some (str (floatstr frepr w))"
| "key_text frepr (PBool b) = Some (str (if b then ''true'' else ''false''))"
| "key_text frepr PNone = Some (str ''null'')"
| "key_text frepr (PInt i) = Some (str (intstr i))"
| "key_text frepr k = None"

text \<open>
  \<^verbatim>\<open>_iterencode\<close>, \<^verbatim>\<open>_iterencode_list\<close> and \<^verbatim>\<open>_iterencode_dict\<close>. \<open>lvl\<close> is
  \<^verbatim>\<open>_current_indent_level\<close>; the two loops carry the flag \<^verbatim>\<open>first\<close>. A container that is
  already being encoded is found in \<^verbatim>\<open>markers\<close> and raises \<^verbatim>\<open>ValueError\<close>; an object of
  an unknown class goes to \<^verbatim>\<open>default\<close>, which raises \<^verbatim>\<open>TypeError\<close>.
\<close>

function (sequential)
    iterencode :: "(64 word \<Rightarrow> string) \<Rightarrow> nat \<Rightarrow> pyval \<Rightarrow> chunks"
and iterencode_list :: "(64 word \<Rightarrow> string) \<Rightarrow> nat \<Rightarrow> bool \<Rightarrow> pyval list \<Rightarrow> chunks"
and iterencode_dict :: "(64 word \<Rightarrow> string) \<Rightarrow> nat \<Rightarrow> bool \<Rightarrow> (pyval \<times> pyval) list \<Rightarrow> chunks"
where
  "iterencode frepr lvl (PStr s) = yield (py_encode_basestring_ascii s)"
| "iterencode frepr lvl PNone = yield ''null''"
| "iterencode frepr lvl (PBool b) = yield (if b then ''true'' else ''false'')"
| "iterencode frepr lvl (PInt i) = yield (intstr i)"
| "iterencode frepr lvl (PFloat w) = yield (floatstr frepr w)"
| "iterencode frepr lvl (PList vs) =
    (if vs = [] then yield ''[]''
     else then_yield (iterencode_list frepr (Suc lvl) True vs)
            (yield (newline_indent lvl @ '']'')))"
| "iterencode frepr lvl (PTuple vs) =
    (if vs = [] then yield ''[]''
     else then_yield (iterencode_list frepr (Suc lvl) True vs)
            (yield (newline_indent lvl @ '']'')))"
| "iterencode frepr lvl (PDict kvs) =
    (if kvs = [] then yield ''{}''
     else then_yield (yield (''{'' @ newline_indent (Suc lvl)))
            (then_yield (iterencode_dict frepr (Suc lvl) True kvs)
               (yield (newline_indent lvl @ ''}''))))"
| "iterencode frepr lvl PObject = raise TypeError"
| "iterencode frepr lvl PCycle = raise ValueError"
| "iterencode_list frepr lvl first [] = yield []"
| "iterencode_list frepr lvl first (v # vs) =
    then_yield (yield ((if first then ''['' else '','') @ newline_indent lvl))
      (then_yield (iterencode frepr lvl v) (iterencode_list frepr lvl False vs))"
| "iterencode_dict frepr lvl first [] = yield []"
| "iterencode_dict frepr lvl first ((k, v) # kvs) =
    (case key_text frepr k of
       None \<Rightarrow> raise TypeError
     | Some ks \<Rightarrow>
        then_yield (yield (if first then [] else '','' @ newline_indent lvl))
          (then_yield (yield (py_encode_basestring_ascii ks))
             (then_yield (yield '': '')
                (then_yield (iterencode frepr lvl v) (iterencode_dict frepr lvl False kvs)))))"
  by pat_completeness auto
termination
  by (relation "measure (\<lambda>x. case x of
        Inl (_, _, v) \<Rightarrow> size v
      | Inr (Inl (_, _, _, vs)) \<Rightarrow> size_list size vs
      | Inr (Inr (_, _, _, kvs)) \<Rightarrow> size_list (size_prod size size) kvs)") auto

section \<open>The filesystem, the clock and the output stream\<close>

text \<open>
  The world the script acts on: a filesystem (a map from absolute paths, as lists of
  names from the root, to directories and regular files with their text), the working
  directory, the lines printed so far, and the clock (\<open>clock w i\<close> is what the \<open>i\<close>-th
  reading returns). The root directory always exists. Symbolic links, permissions,
  quotas and limits on name lengths are outside the model.
\<close>

datatype node = Dir | File string

record datetime =
  year :: nat
  month :: nat
  day :: nat
  hour :: nat
  minute :: nat
  second :: nat
  microsecond :: nat

record world =
  fs :: "string list \<rightharpoonup> node"
  cwd :: "string list"
  stdout :: "string list"
  clock :: "nat \<Rightarrow> datetime"
  reads :: nat

definition lookup :: "(string list \<rightharpoonup> node) \<Rightarrow> string list \<Rightarrow> node option" where
  "lookup t p = (if p = [] then Some Dir else t p)"

definition print_line :: "string \<Rightarrow> world \<Rightarrow> world" where
  "print_line s w = w\<lparr>stdout := stdout w @ [s]\<rparr>"

definition utcnow :: "world \<Rightarrow> datetime \<times> world" where
  "utcnow w = (clock w (reads w), w\<lparr>reads := Suc (reads w)\<rparr>)"

text \<open>
  \<^verbatim>\<open>datetime.isoformat()\<close> of a naive datetime: \<^verbatim>\<open>YYYY-MM-DDTHH:MM:SS\<close>, followed by
  \<^verbatim>\<open>.ffffff\<close> when the microsecond is not zero.
\<close>

definition isoformat :: "datetime \<Rightarrow> string" where
  "isoformat d =
     zero_pad 4 (year d) @ ''-'' @ zero_pad 2 (month d) @ ''-'' @ zero_pad 2 (day d) @ ''T''
     @ zero_pad 2 (hour d) @ '':'' @ zero_pad 2 (minute d) @ '':'' @ zero_pad 2 (second d)
     @ (if microsecond d = 0 then [] else ''.'' @ zero_pad 6 (microsecond d))"

subsection \<open>Paths\<close>

text \<open>\<^verbatim>\<open>posixpath.join(a, b)\<close>.\<close>

definition path_join :: "string \<Rightarrow> string \<Rightarrow> string" where
  "path_join a b =
    (if b \<noteq> [] \<and> hd b = CHR ''/'' then b
     else if a = [] \<or> last a = CHR ''/'' then a @ b
     else a @ ''/'' @ b)"

text \<open>The names between the slashes of a path, as \<^verbatim>\<open>path.split('/')\<close> gives them.\<close>

fun split_sep :: "string \<Rightarrow> string list" where
  "split_sep [] = [[]]"
| "split_sep (c # cs) =
    (if c = CHR ''/'' then [] # split_sep cs
     else (case split_sep cs of [] \<Rightarrow> [[c]] | x # xs \<Rightarrow> (c # x) # xs))"

definition components :: "string \<Rightarrow> string list" where
  "components p = filter (\<lambda>c. c \<noteq> []) (split_sep p)"

text \<open>An absolute path is resolved from the root, any other from the working directory.\<close>

definition start :: "world \<Rightarrow> string \<Rightarrow> string list" where
  "start w p = (if p \<noteq> [] \<and> hd p = CHR ''/'' then [] else cwd w)"

text \<open>
  Resolution of a path, name by name, from the directory \<open>cur\<close>: \<^verbatim>\<open>.\<close> stays, \<^verbatim>\<open>..\<close>
  goes to the parent (the root is its own parent), a name enters that directory. A
  name that is a regular file stops the walk. A missing name stops it too, unless
  \<open>create\<close> is set: then the directory is made, as \<^verbatim>\<open>os.makedirs\<close> does for every
  missing level. The result is the directory reached, or the error, and the filesystem
  with the directories made so far.
\<close>

fun walk :: "bool \<Rightarrow> (string list \<rightharpoonup> node) \<Rightarrow> string list \<Rightarrow> string list
    \<Rightarrow> (error + string list) \<times> (string list \<rightharpoonup> node)" where
  "walk create t cur [] = (Inr cur, t)"
| "walk create t cur (c # cs) =
    (if c = ''.'' then walk create t cur cs
     else if c = ''..'' then walk create t (butlast cur) cs
     else (case lookup t (cur @ [c]) of
        Some Dir \<Rightarrow> walk create t (cur @ [c]) cs
      | Some (File x) \<Rightarrow>
          (Inl (if create \<and> cs = [] then FileExistsError else NotADirectoryError), t)
      | None \<Rightarrow>
          if create then walk create (t(cur @ [c] \<mapsto> Dir)) (cur @ [c]) cs
          else (Inl FileNotFoundError, t)))"

text \<open>
  \<^verbatim>\<open>os.makedirs(name, exist_ok=True)\<close>: every missing directory on the way is made;
  a directory that exists is no error. The empty name and a name with a NUL character
  are refused.
\<close>

definition makedirs :: "string \<Rightarrow> world \<Rightarrow> error option \<times> world" where
  "makedirs name w =
    (if CHR 0x00 \<in> set name then (Some ValueError, w)
     else if name = [] then (Some FileNotFoundError, w)
     else (case walk True (fs w) (start w name) (components name) of
        (Inl e, t) \<Rightarrow> (Some e, w\<lparr>fs := t\<rparr>)
      | (Inr d, t) \<Rightarrow> (None, w\<lparr>fs := t\<rparr>)))"

text \<open>
  The file a path names, for \<^verbatim>\<open>open\<close>: the directories of the path must exist; the
  last name is the file, which may be missing. A path that ends in \<^verbatim>\<open>.\<close> or \<^verbatim>\<open>..\<close>
  names a directory.
\<close>

definition locate :: "string \<Rightarrow> world \<Rightarrow> error + string list" where
  "locate path w =
    (if CHR 0x00 \<in> set path then Inl ValueError
     else if path = [] then Inl FileNotFoundError
     else if components path = [] then Inl IsADirectoryError
     else (case walk False (fs w) (start w path) (butlast (components path)) of
        (Inl e, t) \<Rightarrow> Inl e
      | (Inr d, t) \<Rightarrow>
         (let name = last (components path) in
          if name = ''.'' \<or> name = ''..'' then Inl IsADirectoryError
          else Inr (d @ [name]))))"

text \<open>
  \<^verbatim>\<open>open(path, "w", encoding="utf-8")\<close>: the file is created, or truncated when it
  exists; a directory cannot be opened for writing. The result is the file opened, as
  its absolute path.
\<close>

definition open_w :: "string \<Rightarrow> world \<Rightarrow> (error + string list) \<times> world" where
  "open_w path w =
    (case locate path w of
       Inl e \<Rightarrow> (Inl e, w)
     | Inr file \<Rightarrow>
        (case lookup (fs w) file of
           Some Dir \<Rightarrow> (Inl IsADirectoryError, w)
         | Some (File x) \<Rightarrow>
             if last path = CHR ''/'' then (Inl NotADirectoryError, w)
             else (Inr file, w\<lparr>fs := (fs w)(file \<mapsto> File [])\<rparr>)
         | None \<Rightarrow>
             if last path = CHR ''/'' then (Inl IsADirectoryError, w)
             else (Inr file, w\<lparr>fs := (fs w)(file \<mapsto> File [])\<rparr>)))"

text \<open>\<^verbatim>\<open>f.write(chunk)\<close> for all chunks, and the close at the end of the \<^verbatim>\<open>with\<close> block.\<close>

definition file_write :: "string list \<Rightarrow> string \<Rightarrow> world \<Rightarrow> world" where
  "file_write file text w =
    w\<lparr>fs := (fs w)(file \<mapsto> File ((case fs w file of Some (File x) \<Rightarrow> x | _ \<Rightarrow> []) @ text))\<rparr>"

definition json_dump :: "(64 word \<Rightarrow> string) \<Rightarrow> pyval \<Rightarrow> string list \<Rightarrow> world \<Rightarrow> error option \<times> world" where
  "json_dump frepr data file w =
    (case iterencode frepr 0 data of (text, r) \<Rightarrow> (r, file_write file text w))"

section \<open>The script\<close>

text \<open>
  Every function of the script returns the exception raised (\<open>Inl\<close>) or its value
  (\<open>Inr\<close>), and the world it leaves.
\<close>

definition run_sonarqube_analysis :: "string \<Rightarrow> string \<Rightarrow> string \<Rightarrow> pyval" where
  "run_sonarqube_analysis repo_path project_key token =
    PDict [
      (PStr (str ''code_smells''), PInt 10),
      (PStr (str ''bugs''), PInt 0),
      (PStr (str ''vulnerabilities''), PInt 0),
      (PStr (str ''coverage''), PFloat 0x4055400000000000),
      (PStr (str ''duplicated_lines_density''), PFloat 0x3FF3333333333333)]"

definition capture_ai_interactions :: "pystr \<Rightarrow> pystr \<Rightarrow> world \<Rightarrow> pyval \<times> world" where
  "capture_ai_interactions prompt response w =
    (case utcnow w of (now, w1) \<Rightarrow>
      (PDict [
         (PStr (str ''timestamp''), PStr (str (isoformat now))),
         (PStr (str ''prompt''), PStr prompt),
         (PStr (str ''response''), PStr response)], w1))"

definition write_json_log ::
    "(64 word \<Rightarrow> string) \<Rightarrow> pyval \<Rightarrow> string \<Rightarrow> string \<Rightarrow> world \<Rightarrow> (error + pyval) \<times> world" where
  "write_json_log frepr data output_dir filename w =
    (case makedirs output_dir w of
       (Some e, w1) \<Rightarrow> (Inl e, w1)
     | (None, w1) \<Rightarrow>
        (let path = path_join output_dir filename in
         case open_w path w1 of
           (Inl e, w2) \<Rightarrow> (Inl e, w2)
         | (Inr f, w2) \<Rightarrow>
            (case json_dump frepr data f w2 of
               (Some e, w3) \<Rightarrow> (Inl e, w3)
             | (None, w3) \<Rightarrow> (Inr PNone, print_line (''[info] Wrote log to '' @ path) w3))))"

definition commit_metadata :: "datetime \<Rightarrow> pyval" where
  "commit_metadata now =
    PDict [
      (PStr (str ''commit_hash''), PStr (str ''abc123'')),
      (PStr (str ''author''), PStr (str ''developer@example.com'')),
      (PStr (str ''timestamp''), PStr (str (isoformat now))),
      (PStr (str ''message''), PStr (str ''Implement feature X'')),
      (PStr (str ''files_changed''), PList [PStr (str ''src/module.py'')])]"

definition coverage :: pyval where
  "coverage =
    PDict [
      (PStr (str ''total_lines''), PInt 1000),
      (PStr (str ''covered_lines''), PInt 850),
      (PStr (str ''coverage_percent''), PFloat 0x4055400000000000)]"

text \<open>An exception ends the caller too: the statements after the call are not run.\<close>

definition and_then ::
    "(error + 'a) \<times> world \<Rightarrow> ('a \<Rightarrow> world \<Rightarrow> (error + 'b) \<times> world) \<Rightarrow> (error + 'b) \<times> world" where
  "and_then r k = (case r of (Inl e, w) \<Rightarrow> (Inl e, w) | (Inr v, w) \<Rightarrow> k v w)"

definition main :: "(64 word \<Rightarrow> string) \<Rightarrow> string \<Rightarrow> string \<Rightarrow> world \<Rightarrow> (error + pyval) \<times> world" where
  "main frepr repo_path output_dir w =
    (let w0 = print_line (''[info] Starting data collection for repository: '' @ repo_path) w;
         (now, w1) = utcnow w0
     in
     and_then (write_json_log frepr (commit_metadata now) output_dir ''commit_metadata.json'' w1)
       (\<lambda>r1 w2.
     let sonar_metrics = run_sonarqube_analysis repo_path ''PROJECT_KEY'' ''TOKEN'' in
     and_then (write_json_log frepr sonar_metrics output_dir ''sonar_metrics.json'' w2)
       (\<lambda>r2 w3.
     let (ai_log, w4) = capture_ai_interactions (str ''How to implement a binary search?'')
                          (str ''Here is a Python implementation of binary search...'') w3 in
     and_then (write_json_log frepr ai_log output_dir ''ai_interactions.json'' w4)
       (\<lambda>r3 w5.
     and_then (write_json_log frepr coverage output_dir ''coverage.json'' w5)
       (\<lambda>r4 w6.
     (Inr PNone, print_line ''[info] Data collection completed.'' w6))))))"

section \<open>Reading a document back\<close>

text \<open>
  The script never reads what it wrote. The round-trip law of the specification reads
  the document with \<^verbatim>\<open>open(path)\<close> and parses it with \<^verbatim>\<open>json.load\<close>; this section
  models that reader: the decoder of the \<^verbatim>\<open>json\<close> module with its defaults (strict
  strings, \<^verbatim>\<open>int\<close> and \<^verbatim>\<open>float\<close> for numbers, a \<^verbatim>\<open>dict\<close> for an object). The decoder
  works on the rest of the text instead of an index into it; \<open>None\<close> is its
  \<^verbatim>\<open>JSONDecodeError\<close>. The conversion \<^verbatim>\<open>float(text)\<close> is C code of the interpreter: it
  is the parameter \<open>fparse\<close>.
\<close>

definition is_ws :: "char \<Rightarrow> bool" where
  "is_ws c \<longleftrightarrow> c = CHR '' '' \<or> c = CHR 0x09 \<or> c = CHR 0x0A \<or> c = CHR 0x0D"

definition skip_ws :: "string \<Rightarrow> string" where
  "skip_ws s = dropWhile is_ws s"

definition is_digit :: "char \<Rightarrow> bool" where
  "is_digit c \<longleftrightarrow> 48 \<le> (of_char c :: nat) \<and> (of_char c :: nat) \<le> 57"

definition hex_val :: "char \<Rightarrow> nat option" where
  "hex_val c =
    (let n = (of_char c :: nat) in
     if 48 \<le> n \<and> n \<le> 57 then Some (n - 48)
     else if 97 \<le> n \<and> n \<le> 102 then Some (n - 87)
     else if 65 \<le> n \<and> n \<le> 70 then Some (n - 55)
     else None)"

text \<open>\<^verbatim>\<open>_decode_uXXXX\<close>: four hexadecimal digits.\<close>

fun decode_uXXXX :: "string \<Rightarrow> (nat \<times> string) option" where
  "decode_uXXXX (a # b # c # d # r) =
    (case (hex_val a, hex_val b, hex_val c, hex_val d) of
       (Some x, Some y, Some z, Some u) \<Rightarrow> Some (((x * 16 + y) * 16 + z) * 16 + u, r)
     | _ \<Rightarrow> None)"
| "decode_uXXXX s = None"

lemma decode_uXXXX_shorter: "decode_uXXXX s = Some (n, r) \<Longrightarrow> length r < length s"
  by (cases s rule: decode_uXXXX.cases) (auto split: option.splits)

text \<open>The table \<^verbatim>\<open>BACKSLASH\<close> of the decoder.\<close>

definition backslash :: "char \<Rightarrow> nat option" where
  "backslash e =
    (if e = dquote then Some 0x22
     else if e = bslash then Some 0x5C
     else if e = CHR ''/'' then Some 0x2F
     else if e = CHR ''b'' then Some 0x08
     else if e = CHR ''f'' then Some 0x0C
     else if e = CHR ''n'' then Some 0x0A
     else if e = CHR ''r'' then Some 0x0D
     else if e = CHR ''t'' then Some 0x09
     else None)"

definition cons_char :: "nat \<Rightarrow> (pystr \<times> string) option \<Rightarrow> (pystr \<times> string) option" where
  "cons_char n r = (case r of None \<Rightarrow> None | Some (s, rest) \<Rightarrow> Some (n # s, rest))"

text \<open>
  \<^verbatim>\<open>py_scanstring\<close>, from the character after the opening quote: the string and the
  text after its closing quote. A high surrogate escape followed by a low surrogate
  escape is one code point.
\<close>

function scanstring :: "string \<Rightarrow> (pystr \<times> string) option" where
  "scanstring [] = None"
| "scanstring (c # cs) =
    (if c = dquote then Some ([], cs)
     else if c = bslash then
       (case cs of
          [] \<Rightarrow> None
        | e # es \<Rightarrow>
           if e = CHR ''u'' then
             (case decode_uXXXX es of
                None \<Rightarrow> None
              | Some (uni, r) \<Rightarrow>
                 if 0xD800 \<le> uni \<and> uni \<le> 0xDBFF \<and> take 2 r = [bslash, CHR ''u''] then
                   (case decode_uXXXX (drop 2 r) of
                      None \<Rightarrow> None
                    | Some (uni2, r2) \<Rightarrow>
                       if 0xDC00 \<le> uni2 \<and> uni2 \<le> 0xDFFF
                       then cons_char (0x10000 + ((uni - 0xD800) * 1024 + (uni2 - 0xDC00)))
                              (scanstring r2)
                       else cons_char uni (scanstring r))
                 else cons_char uni (scanstring r))
           else (case backslash e of
                   None \<Rightarrow> None
                 | Some n \<Rightarrow> cons_char n (scanstring es)))
     else if (of_char c :: nat) < 0x20 then None
     else cons_char (of_char c) (scanstring cs))"
  by pat_completeness auto
termination
proof (relation "measure length")
qed (auto dest!: decode_uXXXX_shorter)

text \<open>
  \<^verbatim>\<open>NUMBER_RE\<close>, the pattern \<^verbatim>\<open>(-?(?:0|[1-9]\d*))(\.\d+)?([eE][-+]?\d+)?\<close>: the
  integer part, the fraction and the exponent matched (the last two may be empty),
  and the text after the match.
\<close>

definition match_integer :: "string \<Rightarrow> (string \<times> string) option" where
  "match_integer s =
    (let sign = (if s \<noteq> [] \<and> hd s = CHR ''-'' then ''-'' else []);
         s1 = drop (length sign) s
     in case s1 of
          [] \<Rightarrow> None
        | c # cs \<Rightarrow>
           if c = CHR ''0'' then Some (sign @ [c], cs)
           else if is_digit c then Some (sign @ c # takeWhile is_digit cs, dropWhile is_digit cs)
           else None)"

definition match_frac :: "string \<Rightarrow> string \<times> string" where
  "match_frac s =
    (case s of
       c # d # r \<Rightarrow>
         if c = CHR ''.'' \<and> is_digit d
         then (c # d # takeWhile is_digit r, dropWhile is_digit r)
         else ([], s)
     | _ \<Rightarrow> ([], s))"

definition match_exp :: "string \<Rightarrow> string \<times> string" where
  "match_exp s =
    (case s of
       [] \<Rightarrow> ([], s)
     | e # r \<Rightarrow>
        if e = CHR ''e'' \<or> e = CHR ''E'' then
          (let sign = (if r \<noteq> [] \<and> (hd r = CHR ''-'' \<or> hd r = CHR ''+'') then [hd r] else []);
               r1 = drop (length sign) r
           in if r1 \<noteq> [] \<and> is_digit (hd r1)
              then (e # sign @ takeWhile is_digit r1, dropWhile is_digit r1)
              else ([], s))
        else ([], s))"

definition match_number :: "string \<Rightarrow> (string \<times> string \<times> string \<times> string) option" where
  "match_number s =
    (case match_integer s of
       None \<Rightarrow> None
     | Some (i, r) \<Rightarrow>
        (case match_frac r of (f, r1) \<Rightarrow>
         case match_exp r1 of (e, r2) \<Rightarrow> Some (i, f, e, r2)))"

text \<open>\<^verbatim>\<open>int(text)\<close> for the integer part of a number.\<close>

definition nat_of_digits :: "string \<Rightarrow> nat" where
  "nat_of_digits s = foldl (\<lambda>a c. 10 * a + (of_char c - 48)) 0 s"

definition parse_int :: "string \<Rightarrow> int" where
  "parse_int s =
    (if s \<noteq> [] \<and> hd s = CHR ''-'' then - int (nat_of_digits (tl s)) else int (nat_of_digits s))"

text \<open>
  \<^verbatim>\<open>dict(pairs)\<close>: a key that comes again keeps its place and takes the new value.
\<close>

fun dict_setitem :: "pyval \<Rightarrow> pyval \<Rightarrow> (pyval \<times> pyval) list \<Rightarrow> (pyval \<times> pyval) list" where
  "dict_setitem k v [] = [(k, v)]"
| "dict_setitem k v ((k', v') # kvs) =
    (if k' = k then (k, v) # kvs else (k', v') # dict_setitem k v kvs)"

definition dict_of_pairs :: "(pyval \<times> pyval) list \<Rightarrow> (pyval \<times> pyval) list" where
  "dict_of_pairs pairs = foldl (\<lambda>d (k, v). dict_setitem k v d) [] pairs"

text \<open>
  \<^verbatim>\<open>_scan_once\<close>, \<^verbatim>\<open>JSONArray\<close> and \<^verbatim>\<open>JSONObject\<close>. The first argument after \<open>fparse\<close>
  bounds the number of nested calls; \<open>json_loads\<close> starts with more than the length of
  the text. \<open>parse_array\<close> is entered before a value, \<open>parse_object\<close> after the opening
  quote of a key; both carry what they have read so far.
\<close>

fun scan_once :: "(string \<Rightarrow> 64 word) \<Rightarrow> nat \<Rightarrow> string \<Rightarrow> (pyval \<times> string) option"
and parse_array :: "(string \<Rightarrow> 64 word) \<Rightarrow> nat \<Rightarrow> pyval list \<Rightarrow> string \<Rightarrow> (pyval \<times> string) option"
and parse_object ::
  "(string \<Rightarrow> 64 word) \<Rightarrow> nat \<Rightarrow> (pyval \<times> pyval) list \<Rightarrow> string \<Rightarrow> (pyval \<times> string) option"
where
  "scan_once fparse 0 s = None"
| "scan_once fparse (Suc n) [] = None"
| "scan_once fparse (Suc n) (c # cs) =
    (if c = dquote then
       (case scanstring cs of None \<Rightarrow> None | Some (x, r) \<Rightarrow> Some (PStr x, r))
     else if c = CHR ''{'' then
       (case skip_ws cs of
          [] \<Rightarrow> None
        | d # r \<Rightarrow>
           if d = CHR ''}'' then Some (PDict [], r)
           else if d = dquote then parse_object fparse n [] r
           else None)
     else if c = CHR ''['' then
       (case skip_ws cs of
          [] \<Rightarrow> None
        | d # r \<Rightarrow>
           if d = CHR '']'' then Some (PList [], r)
           else parse_array fparse n [] (d # r))
     else if c = CHR ''n'' \<and> take 4 (c # cs) = ''null'' then Some (PNone, drop 4 (c # cs))
     else if c = CHR ''t'' \<and> take 4 (c # cs) = ''true'' then Some (PBool True, drop 4 (c # cs))
     else if c = CHR ''f'' \<and> take 5 (c # cs) = ''false'' then Some (PBool False, drop 5 (c # cs))
     else (case match_number (c # cs) of
        Some (i, f, e, r) \<Rightarrow>
          if f \<noteq> [] \<or> e \<noteq> [] then Some (PFloat (fparse (i @ f @ e)), r)
          else Some (PInt (parse_int i), r)
      | None \<Rightarrow>
          if c = CHR ''N'' \<and> take 3 (c # cs) = ''NaN''
          then Some (PFloat 0x7FF8000000000000, drop 3 (c # cs))
          else if c = CHR ''I'' \<and> take 8 (c # cs) = ''Infinity''
          then Some (PFloat 0x7FF0000000000000, drop 8 (c # cs))
          else if c = CHR ''-'' \<and> take 9 (c # cs) = ''-Infinity''
          then Some (PFloat 0xFFF0000000000000, drop 9 (c # cs))
          else None))"
| "parse_array fparse 0 vs s = None"
| "parse_array fparse (Suc n) vs s =
    (case scan_once fparse n s of
       None \<Rightarrow> None
     | Some (v, r) \<Rightarrow>
        (case skip_ws r of
           [] \<Rightarrow> None
         | d # r1 \<Rightarrow>
            if d = CHR '']'' then Some (PList (vs @ [v]), r1)
            else if d = CHR '','' then parse_array fparse n (vs @ [v]) (skip_ws r1)
            else None))"
| "parse_object fparse 0 kvs s = None"
| "parse_object fparse (Suc n) kvs s =
    (case scanstring s of
       None \<Rightarrow> None
     | Some (key, r) \<Rightarrow>
        (case skip_ws r of
           [] \<Rightarrow> None
         | d # r1 \<Rightarrow>
            if d \<noteq> CHR '':'' then None
            else (case scan_once fparse n (skip_ws r1) of
               None \<Rightarrow> None
             | Some (v, r2) \<Rightarrow>
                (case skip_ws r2 of
                   [] \<Rightarrow> None
                 | d2 # r3 \<Rightarrow>
                    if d2 = CHR ''}'' then Some (PDict (dict_of_pairs (kvs @ [(PStr key, v)])), r3)
                    else if d2 = CHR '','' then
                      (case skip_ws r3 of
                         [] \<Rightarrow> None
                       | d3 # r4 \<Rightarrow>
                          if d3 = dquote then parse_object fparse n (kvs @ [(PStr key, v)]) r4
                          else None)
                    else None))))"

text \<open>
  \<^verbatim>\<open>json.loads\<close>: whitespace, one value, whitespace, and nothing after it.
\<close>

definition json_loads :: "(string \<Rightarrow> 64 word) \<Rightarrow> string \<Rightarrow> error + pyval" where
  "json_loads fparse s =
    (case scan_once fparse (Suc (length s)) (skip_ws s) of
       None \<Rightarrow> Inl JSONDecodeError
     | Some (v, r) \<Rightarrow> if skip_ws r = [] then Inr v else Inl JSONDecodeError)"

text \<open>\<^verbatim>\<open>open(path)\<close> for reading, and \<^verbatim>\<open>f.read()\<close>: the text of the file.\<close>

definition open_r :: "string \<Rightarrow> world \<Rightarrow> error + string" where
  "open_r path w =
    (case locate path w of
       Inl e \<Rightarrow> Inl e
     | Inr file \<Rightarrow>
        (case lookup (fs w) file of
           Some Dir \<Rightarrow> Inl IsADirectoryError
         | Some (File x) \<Rightarrow> if last path = CHR ''/'' then Inl NotADirectoryError else Inr x
         | None \<Rightarrow> Inl FileNotFoundError))"

definition read_json :: "(string \<Rightarrow> 64 word) \<Rightarrow> string \<Rightarrow> world \<Rightarrow> error + pyval" where
  "read_json fparse path w =
    (case open_r path w of Inl e \<Rightarrow> Inl e | Inr text \<Rightarrow> json_loads fparse text)"

section \<open>Notions of the specification\<close>

text \<open>The keys of a dictionary in their order, and the lookup \<^verbatim>\<open>d.get(k)\<close>.\<close>

fun dict_items :: "pyval \<Rightarrow> (pyval \<times> pyval) list" where
  "dict_items (PDict kvs) = kvs"
| "dict_items v = []"

definition dict_keys :: "pyval \<Rightarrow> pyval list" where
  "dict_keys d = map fst (dict_items d)"

definition dict_get :: "pyval \<Rightarrow> pyval \<Rightarrow> pyval option" where
  "dict_get d k = map_of (dict_items d) k"

text \<open>
  What \<^verbatim>\<open>json.dump\<close> can serialize: \<^verbatim>\<open>None\<close>, booleans, numbers, strings, lists, tuples
  and dictionaries of such values, where every key is a string, a number, a boolean or
  \<^verbatim>\<open>None\<close>. A cyclic structure and an object of any other class are not serializable.
\<close>

fun key_ok :: "pyval \<Rightarrow> bool" where
  "key_ok (PStr s) = True"
| "key_ok (PFloat w) = True"
| "key_ok (PBool b) = True"
| "key_ok PNone = True"
| "key_ok (PInt i) = True"
| "key_ok k = False"

function (sequential)
    serializable :: "pyval \<Rightarrow> bool"
and serializable_list :: "pyval list \<Rightarrow> bool"
and serializable_dict :: "(pyval \<times> pyval) list \<Rightarrow> bool"
where
  "serializable (PList vs) = serializable_list vs"
| "serializable (PTuple vs) = serializable_list vs"
| "serializable (PDict kvs) = serializable_dict kvs"
| "serializable PObject = False"
| "serializable PCycle = False"
| "serializable v = True"
| "serializable_list [] = True"
| "serializable_list (v # vs) = (serializable v \<and> serializable_list vs)"
| "serializable_dict [] = True"
| "serializable_dict ((k, v) # kvs) = (key_ok k \<and> serializable v \<and> serializable_dict kvs)"
  by pat_completeness auto
termination
  by (relation "measure (\<lambda>x. case x of
        Inl v \<Rightarrow> size v
      | Inr (Inl vs) \<Rightarrow> size_list size vs
      | Inr (Inr kvs) \<Rightarrow> size_list (size_prod size size) kvs)") auto

text \<open>
  A \<^verbatim>\<open>str\<close> holds code points below \<open>0x110000\<close>. The round trip needs one more thing of
  it: no high surrogate directly before a low surrogate (the decoder would read the
  two escapes as one code point).
\<close>

fun no_surrogate_pair :: "pystr \<Rightarrow> bool" where
  "no_surrogate_pair (a # b # r) =
    (\<not> (0xD800 \<le> a \<and> a \<le> 0xDBFF \<and> 0xDC00 \<le> b \<and> b \<le> 0xDFFF) \<and> no_surrogate_pair (b # r))"
| "no_surrogate_pair s = True"

definition valid_str :: "pystr \<Rightarrow> bool" where
  "valid_str s \<longleftrightarrow> list_all (\<lambda>n. n < 0x110000) s \<and> no_surrogate_pair s"

text \<open>
  What the round trip needs of a float: it is not a NaN (a NaN is not equal to itself),
  and, when it is finite, its \<^verbatim>\<open>repr\<close> is a JSON number with a fraction or an exponent
  that \<^verbatim>\<open>float\<close> reads back as the same float. CPython's \<^verbatim>\<open>repr\<close> and \<^verbatim>\<open>float\<close> are such
  a pair.
\<close>

definition is_float_token :: "string \<Rightarrow> bool" where
  "is_float_token t =
    (case match_number t of
       None \<Rightarrow> False
     | Some (i, f, e, r) \<Rightarrow> r = [] \<and> (f \<noteq> [] \<or> e \<noteq> []))"

definition float_ok :: "(64 word \<Rightarrow> string) \<Rightarrow> (string \<Rightarrow> 64 word) \<Rightarrow> 64 word \<Rightarrow> bool" where
  "float_ok frepr fparse x =
    (\<not> is_nan x \<and>
     (x = 0x7FF0000000000000 \<or> x = 0xFFF0000000000000 \<or>
      (is_float_token (frepr x) \<and> fparse (frepr x) = x)))"

text \<open>
  A Record of the specification: a mapping from string keys to strings, numbers,
  booleans, \<^verbatim>\<open>None\<close>, and nested mappings and sequences (lists) of them. The keys of a
  \<^verbatim>\<open>dict\<close> are distinct.
\<close>

function (sequential)
    json_like :: "(64 word \<Rightarrow> string) \<Rightarrow> (string \<Rightarrow> 64 word) \<Rightarrow> pyval \<Rightarrow> bool"
and json_like_list :: "(64 word \<Rightarrow> string) \<Rightarrow> (string \<Rightarrow> 64 word) \<Rightarrow> pyval list \<Rightarrow> bool"
and json_like_dict :: "(64 word \<Rightarrow> string) \<Rightarrow> (string \<Rightarrow> 64 word) \<Rightarrow> (pyval \<times> pyval) list \<Rightarrow> bool"
where
  "json_like frepr fparse PNone = True"
| "json_like frepr fparse (PBool b) = True"
| "json_like frepr fparse (PInt i) = True"
| "json_like frepr fparse (PFloat x) = float_ok frepr fparse x"
| "json_like frepr fparse (PStr s) = valid_str s"
| "json_like frepr fparse (PList vs) = json_like_list frepr fparse vs"
| "json_like frepr fparse (PDict kvs) = (distinct (map fst kvs) \<and> json_like_dict frepr fparse kvs)"
| "json_like frepr fparse v = False"
| "json_like_list frepr fparse [] = True"
| "json_like_list frepr fparse (v # vs) = (json_like frepr fparse v \<and> json_like_list frepr fparse vs)"
| "json_like_dict frepr fparse [] = True"
| "json_like_dict frepr fparse ((k, v) # kvs) =
    ((case k of PStr s \<Rightarrow> valid_str s | _ \<Rightarrow> False) \<and> json_like frepr fparse v
     \<and> json_like_dict frepr fparse kvs)"
  by pat_completeness auto
termination
  by (relation "measure (\<lambda>x. case x of
        Inl (_, _, v) \<Rightarrow> size v
      | Inr (Inl (_, _, vs)) \<Rightarrow> size_list size vs
      | Inr (Inr (_, _, kvs)) \<Rightarrow> size_list (size_prod size size) kvs)") auto

text \<open>
  A valid filename of the specification: not empty, no path separator. The names
  \<^verbatim>\<open>.\<close> and \<^verbatim>\<open>..\<close> are directories, and a NUL character cannot be in a path.
\<close>

definition valid_filename :: "string \<Rightarrow> bool" where
  "valid_filename f \<longleftrightarrow>
    f \<noteq> [] \<and> CHR ''/'' \<notin> set f \<and> CHR 0x00 \<notin> set f \<and> f \<noteq> ''.'' \<and> f \<noteq> ''..''"

text \<open>
  The directories a path goes through, from \<open>cur\<close>, and the directory it ends in:
  the levels \<^verbatim>\<open>os.makedirs\<close> ensures.
\<close>

fun levels :: "string list \<Rightarrow> string list \<Rightarrow> string list list" where
  "levels cur [] = []"
| "levels cur (c # cs) =
    (if c = ''.'' then levels cur cs
     else if c = ''..'' then levels (butlast cur) cs
     else (cur @ [c]) # levels (cur @ [c]) cs)"

fun final :: "string list \<Rightarrow> string list \<Rightarrow> string list" where
  "final cur [] = cur"
| "final cur (c # cs) =
    (if c = ''.'' then final cur cs
     else if c = ''..'' then final (butlast cur) cs
     else final (cur @ [c]) cs)"

definition dir_levels :: "world \<Rightarrow> string \<Rightarrow> string list list" where
  "dir_levels w output_dir = levels (start w output_dir) (components output_dir)"

definition target :: "world \<Rightarrow> string \<Rightarrow> string \<Rightarrow> string list" where
  "target w output_dir filename = final (start w output_dir) (components output_dir) @ [filename]"

text \<open>
  The layout the specification asks of a document: an empty container is \<^verbatim>\<open>[]\<close> or
  \<^verbatim>\<open>{}\<close>; the items of any other stand one per line, in their order, each indented by
  two spaces for every container around it, with a comma after every item but the
  last; the closing bracket stands on a line of its own, indented as the line the
  container began on.
\<close>

fun join_with :: "string \<Rightarrow> string list \<Rightarrow> string" where
  "join_with sep [] = []"
| "join_with sep [x] = x"
| "join_with sep (x # y # ys) = x @ sep @ join_with sep (y # ys)"

definition indent :: "nat \<Rightarrow> string" where
  "indent depth = replicate (2 * depth) CHR '' ''"

function (sequential)
    pretty :: "(64 word \<Rightarrow> string) \<Rightarrow> nat \<Rightarrow> pyval \<Rightarrow> string"
and pretty_items :: "(64 word \<Rightarrow> string) \<Rightarrow> nat \<Rightarrow> pyval list \<Rightarrow> string list"
and pretty_members :: "(64 word \<Rightarrow> string) \<Rightarrow> nat \<Rightarrow> (pyval \<times> pyval) list \<Rightarrow> string list"
where
  "pretty frepr depth (PList vs) =
    (if vs = [] then ''[]''
     else ''['' @ [newline] @ join_with ('','' @ [newline]) (pretty_items frepr (Suc depth) vs)
          @ [newline] @ indent depth @ '']'')"
| "pretty frepr depth (PTuple vs) =
    (if vs = [] then ''[]''
     else ''['' @ [newline] @ join_with ('','' @ [newline]) (pretty_items frepr (Suc depth) vs)
          @ [newline] @ indent depth @ '']'')"
| "pretty frepr depth (PDict kvs) =
    (if kvs = [] then ''{}''
     else ''{'' @ [newline] @ join_with ('','' @ [newline]) (pretty_members frepr (Suc depth) kvs)
          @ [newline] @ indent depth @ ''}'')"
| "pretty frepr depth (PStr s) = py_encode_basestring_ascii s"
| "pretty frepr depth PNone = ''null''"
| "pretty frepr depth (PBool b) = (if b then ''true'' else ''false'')"
| "pretty frepr depth (PInt i) = intstr i"
| "pretty frepr depth (PFloat x) = floatstr frepr x"
| "pretty frepr depth v = []"
| "pretty_items frepr depth [] = []"
| "pretty_items frepr depth (v # vs) =
    (indent depth @ pretty frepr depth v) # pretty_items frepr depth vs"
| "pretty_members frepr depth [] = []"
| "pretty_members frepr depth ((k, v) # kvs) =
    (indent depth @ py_encode_basestring_ascii (the (key_text frepr k)) @ '': ''
       @ pretty frepr depth v) # pretty_members frepr depth kvs"
  by pat_completeness auto
termination
  by (relation "measure (\<lambda>x. case x of
        Inl (_, _, v) \<Rightarrow> size v
      | Inr (Inl (_, _, vs)) \<Rightarrow> size_list size vs
      | Inr (Inr (_, _, kvs)) \<Rightarrow> size_list (size_prod size size) kvs)") auto

section \<open>Notions used in the proofs about the decoder\<close>

text \<open>The two halves of a surrogate pair.\<close>

definition low_surrogate :: "nat \<Rightarrow> bool" where
  "low_surrogate u \<longleftrightarrow> 0xDC00 \<le> u \<and> u \<le> 0xDFFF"

definition high_surrogate :: "nat \<Rightarrow> bool" where
  "high_surrogate u \<longleftrightarrow> 0xD800 \<le> u \<and> u \<le> 0xDBFF"

text \<open>The text does not go on with the escape of a low surrogate.\<close>

definition no_low_escape :: "string \<Rightarrow> bool" where
  "no_low_escape R \<longleftrightarrow>
     take 2 R \<noteq> [bslash, CHR ''u''] \<or>
     (\<exists>u2 r2. decode_uXXXX (drop 2 R) = Some (u2, r2) \<and> \<not> low_surrogate u2)"

text \<open>A text at which a number ends: the pattern of numbers cannot go on into it.\<close>

definition number_end :: "string \<Rightarrow> bool" where
  "number_end rest \<longleftrightarrow>
     rest = [] \<or> (\<not> is_digit (hd rest) \<and> hd rest \<notin> {CHR ''.'', CHR ''e'', CHR ''E'', CHR ''+'', CHR ''-''})"

text \<open>A character a value can begin with: no whitespace and no closing bracket.\<close>

definition value_start :: "char \<Rightarrow> bool" where
  "value_start c \<longleftrightarrow> \<not> is_ws c \<and> c \<noteq> CHR '']'' \<and> c \<noteq> CHR ''}''"

text \<open>The text after an item or a member: the next one after a comma, or the closing.\<close>

definition after_item :: "string list \<Rightarrow> string \<Rightarrow> string" where
  "after_item later tail =
    (if later = [] then tail else '','' @ [newline] @ join_with ('','' @ [newline]) later @ tail)"

section \<open>Concrete inputs\<close>

text \<open>
  A world to run the script in: the working directory \<^verbatim>\<open>/home\<close> and nothing else, a
  clock, and the \<^verbatim>\<open>repr\<close> and \<^verbatim>\<open>float\<close> of the two floats of the script.
\<close>

definition example_world :: world where
  "example_world =
    \<lparr>fs = [[''home''] \<mapsto> Dir], cwd = [''home''], stdout = [],
     clock = (\<lambda>i. \<lparr>year = 2024, month = 1, day = 2, hour = 3, minute = 4, second = 5,
                    microsecond = i\<rparr>),
     reads = 0\<rparr>"

definition example_frepr :: "64 word \<Rightarrow> string" where
  "example_frepr x = (if x = 0x4055400000000000 then ''85.0'' else ''1.2'')"

definition example_fparse :: "string \<Rightarrow> 64 word" where
  "example_fparse t = (if t = ''85.0'' then 0x4055400000000000 else 0x3FF3333333333333)"

section \<open>Properties of the filesystem operations\<close>

lemma lookup_snoc [simp]: "lookup t (cur @ [c]) = t (cur @ [c])"
  by (simp add: lookup_def)

lemma walk_keeps:
  "walk create t cur cs = (r, t') \<Longrightarrow> t p = Some x \<Longrightarrow> t' p = Some x"
proof (induction cs arbitrary: t cur)
  case Nil
  then show ?case by simp
next
  case (Cons c cs)
  show ?case
  proof (cases "c = ''.'' \<or> c = ''..''")
    case True
    with Cons show ?thesis by (auto split: if_splits)
  next
    case False
    show ?thesis
    proof (cases "t (cur @ [c])")
      case None
      with Cons.prems(2) have "p \<noteq> cur @ [c]" by auto
      with None False Cons show ?thesis by (cases create) auto
    next
      case (Some n)
      with False Cons show ?thesis by (cases n) (auto split: if_splits)
    qed
  qed
qed

lemma walk_new_dir:
  "walk create t cur cs = (r, t') \<Longrightarrow> t p = None \<Longrightarrow> t' p = None \<or> t' p = Some Dir"
proof (induction cs arbitrary: t cur)
  case Nil
  then show ?case by simp
next
  case (Cons c cs)
  show ?case
  proof (cases "c = ''.'' \<or> c = ''..''")
    case True
    with Cons show ?thesis by (auto split: if_splits)
  next
    case False
    show ?thesis
    proof (cases "t (cur @ [c])")
      case None
      show ?thesis
      proof (cases create)
        case True
        with None False Cons.prems have w: "walk create (t(cur @ [c] \<mapsto> Dir)) (cur @ [c]) cs = (r, t')"
          by simp
        show ?thesis
        proof (cases "p = cur @ [c]")
          case True
          with walk_keeps [OF w, of p Dir] show ?thesis by simp
        next
          case False
          with Cons.IH [OF w] Cons.prems(2) show ?thesis by simp
        qed
      next
        case False
        with None \<open>\<not> (c = ''.'' \<or> c = ''..'')\<close> Cons.prems show ?thesis by simp
      qed
    next
      case (Some n)
      with False Cons show ?thesis by (cases n) (auto split: if_splits)
    qed
  qed
qed

lemma walk_no_create [simp]: "snd (walk False t cur cs) = t"
  by (induction cs arbitrary: cur) (auto split: option.splits node.splits)

lemma walk_again:
  "walk create t cur cs = (r, t') \<Longrightarrow> walk create t' cur cs = (r, t')"
proof (induction cs arbitrary: t cur)
  case Nil
  then show ?case by simp
next
  case (Cons c cs)
  show ?case
  proof (cases "c = ''.'' \<or> c = ''..''")
    case True
    with Cons show ?thesis by (auto split: if_splits)
  next
    case False
    show ?thesis
    proof (cases "t (cur @ [c])")
      case None
      show ?thesis
      proof (cases create)
        case True
        with None False Cons.prems have w: "walk create (t(cur @ [c] \<mapsto> Dir)) (cur @ [c]) cs = (r, t')"
          by simp
        from walk_keeps [OF w, of "cur @ [c]" Dir] have "t' (cur @ [c]) = Some Dir" by simp
        with False Cons.IH [OF w] show ?thesis by simp
      next
        case False
        with None \<open>\<not> (c = ''.'' \<or> c = ''..'')\<close> Cons.prems show ?thesis by auto
      qed
    next
      case (Some n)
      show ?thesis
      proof (cases n)
        case Dir
        with Some False Cons.prems have w: "walk create t (cur @ [c]) cs = (r, t')" by simp
        from walk_keeps [OF w, of "cur @ [c]" Dir] Some Dir have "t' (cur @ [c]) = Some Dir" by simp
        with False Cons.IH [OF w] show ?thesis by simp
      next
        case (File x)
        with Some False Cons.prems show ?thesis by auto
      qed
    qed
  qed
qed

text \<open>A successful walk sees directories only: a change at a path that is no directory
  afterwards does not disturb it, also when nothing is created.\<close>

lemma walk_update:
  "walk create t cur cs = (Inr d, t') \<Longrightarrow> t' p \<noteq> Some Dir \<Longrightarrow> x \<noteq> Dir \<Longrightarrow>
   walk create' (t'(p \<mapsto> x)) cur cs = (Inr d, t'(p \<mapsto> x))"
proof (induction cs arbitrary: t cur)
  case Nil
  then show ?case by simp
next
  case (Cons c cs)
  show ?case
  proof (cases "c = ''.'' \<or> c = ''..''")
    case True
    with Cons show ?thesis by (auto split: if_splits)
  next
    case False
    have "\<exists>t1. walk create t1 (cur @ [c]) cs = (Inr d, t') \<and> t1 (cur @ [c]) = Some Dir"
    proof (cases "t (cur @ [c])")
      case None
      with False Cons.prems(1) show ?thesis
        by (cases create) (auto intro!: exI [of _ "t(cur @ [c] \<mapsto> Dir)"])
    next
      case (Some n)
      with False Cons.prems(1) show ?thesis
        by (cases n) (auto intro!: exI [of _ t])
    qed
    then obtain t1 where w: "walk create t1 (cur @ [c]) cs = (Inr d, t')"
      and d: "t1 (cur @ [c]) = Some Dir" by blast
    from walk_keeps [OF w d] have t': "t' (cur @ [c]) = Some Dir" .
    with Cons.prems(2) have "p \<noteq> cur @ [c]" by auto
    with t' False Cons.IH [OF w Cons.prems(2) Cons.prems(3)] show ?thesis by simp
  qed
qed

lemma walk_resolve:
  "walk create t cur cs = (Inr d, t') \<Longrightarrow> walk create' t' cur cs = (Inr d, t')"
proof (induction cs arbitrary: t cur)
  case Nil
  then show ?case by simp
next
  case (Cons c cs)
  show ?case
  proof (cases "c = ''.'' \<or> c = ''..''")
    case True
    with Cons show ?thesis by (auto split: if_splits)
  next
    case False
    have "\<exists>t1. walk create t1 (cur @ [c]) cs = (Inr d, t') \<and> t1 (cur @ [c]) = Some Dir"
    proof (cases "t (cur @ [c])")
      case None
      with False Cons.prems(1) show ?thesis
        by (cases create) (auto intro!: exI [of _ "t(cur @ [c] \<mapsto> Dir)"])
    next
      case (Some n)
      with False Cons.prems(1) show ?thesis
        by (cases n) (auto intro!: exI [of _ t])
    qed
    then obtain t1 where w: "walk create t1 (cur @ [c]) cs = (Inr d, t')"
      and d: "t1 (cur @ [c]) = Some Dir" by blast
    from walk_keeps [OF w d] have t': "t' (cur @ [c]) = Some Dir" .
    with False Cons.IH [OF w] show ?thesis by simp
  qed
qed

lemma walk_final: "walk create t cur cs = (Inr d, t') \<Longrightarrow> d = final cur cs"
  by (induction cs arbitrary: t cur) (auto split: if_splits option.splits node.splits)

lemma walk_create_levels:
  assumes "\<forall>p \<in> set (levels cur cs). \<forall>x. t p \<noteq> Some (File x)"
  shows "walk True t cur cs =
    (Inr (final cur cs), (\<lambda>p. if p \<in> set (levels cur cs) then Some Dir else t p))"
  using assms
proof (induction cs arbitrary: t cur)
  case Nil
  then show ?case by simp
next
  case (Cons c cs)
  show ?case
  proof (cases "c = ''.'' \<or> c = ''..''")
    case True
    with Cons show ?thesis by (auto split: if_splits)
  next
    case False
    let ?q = "cur @ [c]"
    from False Cons.prems have q: "\<forall>x. t ?q \<noteq> Some (File x)"
      and rest: "\<forall>p \<in> set (levels ?q cs). \<forall>x. t p \<noteq> Some (File x)" by auto
    show ?thesis
    proof (cases "t ?q")
      case None
      from rest have "\<forall>p \<in> set (levels ?q cs). \<forall>x. (t(?q \<mapsto> Dir)) p \<noteq> Some (File x)" by auto
      from Cons.IH [OF this]
      have "walk True (t(?q \<mapsto> Dir)) ?q cs =
        (Inr (final ?q cs), (\<lambda>p. if p \<in> set (levels ?q cs) then Some Dir else (t(?q \<mapsto> Dir)) p))" .
      moreover have "(\<lambda>p. if p \<in> set (levels ?q cs) then Some Dir else (t(?q \<mapsto> Dir)) p) =
        (\<lambda>p. if p \<in> set (levels cur (c # cs)) then Some Dir else t p)"
        using False by (auto simp: fun_eq_iff)
      ultimately show ?thesis using None False by simp
    next
      case (Some n)
      with q have n: "n = Dir" by (cases n) auto
      have "(\<lambda>p. if p \<in> set (levels ?q cs) then Some Dir else t p) =
        (\<lambda>p. if p \<in> set (levels cur (c # cs)) then Some Dir else t p)"
        using False Some n by (auto simp: fun_eq_iff)
      with Cons.IH [OF rest] Some n False show ?thesis by simp
    qed
  qed
qed

subsection \<open>Paths\<close>

lemma split_sep_not_Nil [simp]: "split_sep s \<noteq> []"
  by (induction s) (auto split: list.splits)

lemma split_sep_append: "split_sep (a @ CHR ''/'' # b) = split_sep a @ split_sep b"
  by (induction a) (auto split: list.splits)

lemma split_sep_name: "CHR ''/'' \<notin> set f \<Longrightarrow> split_sep f = [f]"
  by (induction f) auto

lemma components_append: "components (a @ CHR ''/'' # b) = components a @ components b"
  by (simp add: components_def split_sep_append)

lemma components_name: "f \<noteq> [] \<Longrightarrow> CHR ''/'' \<notin> set f \<Longrightarrow> components f = [f]"
  by (simp add: components_def split_sep_name)

lemma components_slash: "components (a @ ''/'') = components a"
  using components_append [of a "[]"] by (simp add: components_def)

lemma components_join:
  assumes "valid_filename f" "d \<noteq> []"
  shows "components (path_join d f) = components d @ [f]"
proof -
  from assms have f: "f \<noteq> []" "CHR ''/'' \<notin> set f" by (auto simp: valid_filename_def)
  then have hd: "hd f \<noteq> CHR ''/''" by (cases f) auto
  show ?thesis
  proof (cases "last d = CHR ''/''")
    case True
    with assms(2) have d: "d = butlast d @ ''/''" by (metis append_butlast_last_id)
    have "components (path_join d f) = components (butlast d @ CHR ''/'' # f)"
      using True hd f d by (simp add: path_join_def) (metis append.assoc append_Cons append_Nil)
    also have "\<dots> = components (butlast d) @ [f]"
      by (simp add: components_append components_name f)
    also have "components (butlast d) = components d"
      using components_slash [of "butlast d"] d by simp
    finally show ?thesis .
  next
    case False
    with hd f assms(2) show ?thesis
      by (simp add: path_join_def components_append components_name)
  qed
qed

lemma start_join: "d \<noteq> [] \<Longrightarrow> valid_filename f \<Longrightarrow> start w (path_join d f) = start w d"
  by (cases d; cases f) (auto simp: start_def path_join_def valid_filename_def)

lemma last_join: "valid_filename f \<Longrightarrow> last (path_join d f) \<noteq> CHR ''/''"
  by (cases f rule: rev_cases) (auto simp: path_join_def valid_filename_def)

lemma join_not_Nil: "valid_filename f \<Longrightarrow> path_join d f \<noteq> []"
  by (auto simp: path_join_def valid_filename_def)

lemma join_no_NUL:
  "CHR 0x00 \<notin> set d \<Longrightarrow> valid_filename f \<Longrightarrow> CHR 0x00 \<notin> set (path_join d f)"
  by (auto simp: path_join_def valid_filename_def)

subsection \<open>The operations depend on the filesystem and the working directory only\<close>

lemma makedirs_world: "makedirs d w = (r, w1) \<Longrightarrow> w1 = w\<lparr>fs := fs w1\<rparr>"
  by (auto simp: makedirs_def split: if_splits prod.splits sum.splits)

lemma open_w_world: "open_w p w = (r, w1) \<Longrightarrow> w1 = w\<lparr>fs := fs w1\<rparr>"
  by (auto simp: open_w_def split: if_splits prod.splits sum.splits option.splits node.splits)

lemma makedirs_again: "makedirs d w = (r, w1) \<Longrightarrow> makedirs d w1 = (r, w1)"
  by (auto simp: makedirs_def start_def split: if_splits prod.splits sum.splits dest: walk_again)

lemma locate_not_root: "locate path w = Inr doc \<Longrightarrow> doc \<noteq> []"
  by (auto simp: locate_def Let_def split: if_splits prod.splits sum.splits)

lemma lookup_located: "locate path w = Inr doc \<Longrightarrow> lookup t doc = t doc"
  by (drule locate_not_root) (simp add: lookup_def)

lemma makedirs_update:
  assumes "makedirs d w = (None, w1)" "fs w1 p \<noteq> Some Dir" "x \<noteq> Dir"
    and "fs w' = (fs w1)(p \<mapsto> x)" "cwd w' = cwd w"
  shows "makedirs d w' = (None, w')"
proof -
  from assms(1) obtain dd where nul: "CHR 0x00 \<notin> set d" and ne: "d \<noteq> []"
    and wk: "walk True (fs w) (start w d) (components d) = (Inr dd, fs w1)"
    by (auto simp: makedirs_def split: if_splits prod.splits sum.splits)
  from assms(5) have st: "start w' d = start w d" by (simp add: start_def)
  from walk_update [OF wk assms(2) assms(3), of True] assms(4) st nul ne
  show ?thesis by (simp add: makedirs_def)
qed

lemma locate_update:
  assumes "locate path w = Inr doc" "fs w p \<noteq> Some Dir" "x \<noteq> Dir"
    and "fs w' = (fs w)(p \<mapsto> x)" "cwd w' = cwd w"
  shows "locate path w' = Inr doc"
proof -
  from assms(1) obtain dd t where nul: "CHR 0x00 \<notin> set path" and ne: "path \<noteq> []"
    and cs: "components path \<noteq> []"
    and wk: "walk False (fs w) (start w path) (butlast (components path)) = (Inr dd, t)"
    and nm: "last (components path) \<noteq> ''.''" "last (components path) \<noteq> ''..''"
    and doc: "doc = dd @ [last (components path)]"
    by (auto simp: locate_def Let_def split: if_splits prod.splits sum.splits)
  from wk walk_no_create [of "fs w" "start w path" "butlast (components path)"]
  have t: "t = fs w" by simp
  from assms(5) have st: "start w' path = start w path" by (simp add: start_def)
  from walk_update [OF wk [unfolded t] assms(2) assms(3), of False] assms(4) st nul ne cs nm doc
  show ?thesis by (simp add: locate_def)
qed

lemma open_w_Inr:
  "open_w path w = (Inr doc, w2) \<Longrightarrow>
   locate path w = Inr doc \<and> fs w doc \<noteq> Some Dir \<and> last path \<noteq> CHR ''/''
   \<and> w2 = w\<lparr>fs := (fs w)(doc \<mapsto> File [])\<rparr>"
  by (cases "locate path w")
     (auto simp: open_w_def lookup_located split: if_splits option.splits node.splits)

lemma open_w_Inl: "open_w path w = (Inl e, w2) \<Longrightarrow> w2 = w"
  by (auto simp: open_w_def split: if_splits option.splits node.splits sum.splits)

lemma open_w_ok:
  "locate path w = Inr doc \<Longrightarrow> fs w doc \<noteq> Some Dir \<Longrightarrow> last path \<noteq> CHR ''/'' \<Longrightarrow>
   open_w path w = (Inr doc, w\<lparr>fs := (fs w)(doc \<mapsto> File [])\<rparr>)"
  by (cases "fs w doc")
     (auto simp: open_w_def lookup_located split: if_splits option.splits node.splits)

text \<open>The outcome of a call of \<open>write_json_log\<close>, stage by stage.\<close>

lemma write_json_log_stages:
  obtains
    (makedirs_fails) e w1 where "makedirs output_dir w = (Some e, w1)"
      "write_json_log frepr data output_dir filename w = (Inl e, w1)"
  | (open_fails) e w1 where "makedirs output_dir w = (None, w1)"
      "open_w (path_join output_dir filename) w1 = (Inl e, w1)"
      "write_json_log frepr data output_dir filename w = (Inl e, w1)"
  | (dump_fails) e w1 doc out where "makedirs output_dir w = (None, w1)"
      "locate (path_join output_dir filename) w1 = Inr doc" "fs w1 doc \<noteq> Some Dir"
      "last (path_join output_dir filename) \<noteq> CHR ''/''"
      "iterencode frepr 0 data = (out, Some e)"
      "write_json_log frepr data output_dir filename w =
         (Inl e, w1\<lparr>fs := (fs w1)(doc \<mapsto> File out)\<rparr>)"
  | (written) w1 doc out where "makedirs output_dir w = (None, w1)"
      "locate (path_join output_dir filename) w1 = Inr doc" "fs w1 doc \<noteq> Some Dir"
      "last (path_join output_dir filename) \<noteq> CHR ''/''"
      "iterencode frepr 0 data = (out, None)"
      "write_json_log frepr data output_dir filename w =
         (Inr PNone, print_line (''[info] Wrote log to '' @ path_join output_dir filename)
            (w1\<lparr>fs := (fs w1)(doc \<mapsto> File out)\<rparr>))"
proof -
  obtain r1 w1 where m: "makedirs output_dir w = (r1, w1)" by force
  show ?thesis
  proof (cases r1)
    case (Some e)
    with m makedirs_fails show ?thesis by (simp add: write_json_log_def)
  next
    case None
    obtain r2 w2 where p: "open_w (path_join output_dir filename) w1 = (r2, w2)" by force
    show ?thesis
    proof (cases r2)
      case (Inl e)
      with p open_w_Inl have "w2 = w1" by blast
      with m None p Inl open_fails show ?thesis by (simp add: write_json_log_def)
    next
      case (Inr doc)
      from open_w_Inr [OF p [unfolded Inr]]
      have l: "locate (path_join output_dir filename) w1 = Inr doc" "fs w1 doc \<noteq> Some Dir"
        "last (path_join output_dir filename) \<noteq> CHR ''/''"
        and w2: "w2 = w1\<lparr>fs := (fs w1)(doc \<mapsto> File [])\<rparr>" by auto
      obtain out r3 where enc: "iterencode frepr 0 data = (out, r3)" by force
      from w2 enc have d: "json_dump frepr data doc w2 = (r3, w1\<lparr>fs := (fs w1)(doc \<mapsto> File out)\<rparr>)"
        by (simp add: json_dump_def file_write_def)
      show ?thesis
      proof (cases r3)
        case None
        with m \<open>r1 = None\<close> p Inr d enc l written show ?thesis
          by (simp add: write_json_log_def)
      next
        case (Some e)
        with m \<open>r1 = None\<close> p Inr d enc l dump_fails show ?thesis
          by (simp add: write_json_log_def)
      qed
    qed
  qed
qed

lemma write_json_log_again_aux:
  assumes m: "makedirs output_dir w = (None, w1)"
    and l: "locate (path_join output_dir filename) w1 = Inr doc" "fs w1 doc \<noteq> Some Dir"
      "last (path_join output_dir filename) \<noteq> CHR ''/''"
    and enc: "iterencode frepr 0 data = (out, r)"
    and w': "fs w' = (fs w1)(doc \<mapsto> File out)" "cwd w' = cwd w"
  shows "fs (snd (write_json_log frepr data output_dir filename w')) = fs w'"
proof -
  have m': "makedirs output_dir w' = (None, w')"
    using makedirs_update [OF m l(2) _ w'] by simp
  from makedirs_world [OF m] have "cwd w1 = cwd w" by (metis world.select_convs(2) world.surjective world.update_convs(1))
  with w' have c: "cwd w' = cwd w1" by simp
  have l': "locate (path_join output_dir filename) w' = Inr doc"
    using locate_update [OF l(1) l(2) _ w'(1) c] by simp
  from w' have "fs w' doc \<noteq> Some Dir" by simp
  from open_w_ok [OF l' this l(3)]
  have o: "open_w (path_join output_dir filename) w' = (Inr doc, w'\<lparr>fs := (fs w')(doc \<mapsto> File [])\<rparr>)" .
  have "(fs w')(doc \<mapsto> File out) = fs w'" using w'(1) by auto
  with m' o enc show ?thesis
    by (cases r) (simp_all add: write_json_log_def json_dump_def file_write_def print_line_def)
qed

section \<open>Properties of the encoder\<close>

lemma then_yield_yield [simp]: "then_yield (yield s) c = (s @ fst c, snd c)"
  by (cases c) (simp add: yield_def)

lemma then_yield_ok [simp]: "then_yield (s, None) c = (s @ fst c, snd c)"
  by (cases c) simp

lemma snd_then_yield:
  "snd (then_yield a b) = (case snd a of Some e \<Rightarrow> Some e | None \<Rightarrow> snd b)"
  by (cases a; cases b; cases "snd a") auto

lemma key_text_ok: "key_text frepr k \<noteq> None \<longleftrightarrow> key_ok k"
  by (cases k) auto

lemma encode_outcome:
  "snd (iterencode frepr lvl v) \<in> {None, Some TypeError, Some ValueError}
   \<and> (snd (iterencode frepr lvl v) = None \<longleftrightarrow> serializable v)"
  "snd (iterencode_list frepr lvl first vs) \<in> {None, Some TypeError, Some ValueError}
   \<and> (snd (iterencode_list frepr lvl first vs) = None \<longleftrightarrow> serializable_list vs)"
  "snd (iterencode_dict frepr lvl first kvs) \<in> {None, Some TypeError, Some ValueError}
   \<and> (snd (iterencode_dict frepr lvl first kvs) = None \<longleftrightarrow> serializable_dict kvs)"
proof (induction frepr lvl v and frepr lvl first vs and frepr lvl first kvs
    rule: iterencode_iterencode_list_iterencode_dict.induct)
  case (14 frepr lvl first k v kvs)
  show ?case
  proof (cases "key_text frepr k")
    case None
    with key_text_ok [of frepr k] show ?thesis by (simp add: raise_def)
  next
    case (Some ks)
    with key_text_ok [of frepr k] have k: "key_ok k" by simp
    from 14 [OF Some] Some k show ?thesis
      by (auto simp: snd_then_yield yield_def split: option.splits)
  qed
qed (auto simp: snd_then_yield yield_def raise_def split: option.splits)

lemma join_with_Cons:
  "join_with sep (x # xs) = x @ (if xs = [] then [] else sep @ join_with sep xs)"
  by (cases xs) auto

lemma pretty_items_Nil [simp]: "pretty_items frepr lvl vs = [] \<longleftrightarrow> vs = []"
  by (cases vs) auto

lemma pretty_members_Nil [simp]: "pretty_members frepr lvl kvs = [] \<longleftrightarrow> kvs = []"
  by (cases kvs) auto

lemma newline_indent_eq: "newline_indent lvl = newline # indent lvl"
  by (simp add: newline_indent_def indent_def)

lemma encode_pretty:
  "serializable v \<Longrightarrow> iterencode frepr lvl v = (pretty frepr lvl v, None)"
  "serializable_list vs \<Longrightarrow> iterencode_list frepr lvl first vs =
     (if vs = [] then []
      else (if first then ''['' else '','') @ [newline]
           @ join_with ('','' @ [newline]) (pretty_items frepr lvl vs), None)"
  "serializable_dict kvs \<Longrightarrow> iterencode_dict frepr lvl first kvs =
     (if kvs = [] then []
      else (if first then drop (2 * lvl) else (@) ('','' @ [newline]))
             (join_with ('','' @ [newline]) (pretty_members frepr lvl kvs)), None)"
proof (induction frepr lvl v and frepr lvl first vs and frepr lvl first kvs
    rule: iterencode_iterencode_list_iterencode_dict.induct)
  case (8 frepr lvl kvs)
  show ?case
  proof (cases "kvs = []")
    case True
    then show ?thesis by (simp add: yield_def)
  next
    case False
    then obtain k v r where kvs: "kvs = (k, v) # r" by (cases kvs) auto
    from 8 False have "iterencode_dict frepr (Suc lvl) True kvs =
      (drop (2 * Suc lvl) (join_with ('','' @ [newline]) (pretty_members frepr (Suc lvl) kvs)), None)"
      by simp
    moreover have "indent (Suc lvl) @ drop (2 * Suc lvl) (join_with ('','' @ [newline]) (pretty_members frepr (Suc lvl) kvs))
      = join_with ('','' @ [newline]) (pretty_members frepr (Suc lvl) kvs)"
      unfolding kvs by (simp add: join_with_Cons indent_def)
    ultimately show ?thesis using False
      by (simp add: yield_def newline_indent_eq)
  qed
next
  case (12 frepr lvl first v vs)
  then show ?case
    by (simp add: yield_def newline_indent_eq join_with_Cons)
next
  case (14 frepr lvl first k v kvs)
  from 14(3) have k: "key_ok k" and v: "serializable v" and r: "serializable_dict kvs" by auto
  from k obtain ks where ks: "key_text frepr k = Some ks"
    using key_text_ok [of frepr k] by auto
  from 14(1) [OF ks v] 14(2) [OF ks r] ks show ?case
    by (simp add: yield_def newline_indent_eq join_with_Cons indent_def)
qed (simp_all add: yield_def newline_indent_eq)

section \<open>Properties of a write\<close>

subsection \<open>A write that meets no obstacle\<close>

lemma world_fs_id [simp]: "w\<lparr>fs := fs w\<rparr> = w"
  by simp

lemma write_json_log_result:
  assumes d: "output_dir \<noteq> []" "CHR 0x00 \<notin> set output_dir"
    and f: "valid_filename filename"
    and free: "\<forall>p \<in> set (dir_levels w output_dir). \<forall>x. fs w p \<noteq> Some (File x)"
    and tgt: "target w output_dir filename \<notin> set (dir_levels w output_dir)"
      "fs w (target w output_dir filename) \<noteq> Some Dir"
    and enc: "iterencode frepr 0 data = (out, r)"
  shows "write_json_log frepr data output_dir filename w =
    (case r of
       None \<Rightarrow> (Inr PNone,
         w\<lparr>fs := (\<lambda>p. if p = target w output_dir filename then Some (File out)
                      else if p \<in> set (dir_levels w output_dir) then Some Dir else fs w p),
           stdout := stdout w @ [''[info] Wrote log to '' @ path_join output_dir filename]\<rparr>)
     | Some e \<Rightarrow> (Inl e,
         w\<lparr>fs := (\<lambda>p. if p = target w output_dir filename then Some (File out)
                      else if p \<in> set (dir_levels w output_dir) then Some Dir else fs w p)\<rparr>))"
proof -
  let ?path = "path_join output_dir filename"
  let ?cur = "start w output_dir"
  let ?cs = "components output_dir"
  let ?t1 = "\<lambda>p. if p \<in> set (levels ?cur ?cs) then Some Dir else fs w p"
  let ?w1 = "w\<lparr>fs := ?t1\<rparr>"
  let ?doc = "final ?cur ?cs @ [filename]"
  from free have wk: "walk True (fs w) ?cur ?cs = (Inr (final ?cur ?cs), ?t1)"
    by (intro walk_create_levels) (simp add: dir_levels_def)
  with d have m: "makedirs output_dir w = (None, ?w1)"
    by (simp add: makedirs_def)
  from walk_resolve [OF wk, of False]
  have wk1: "walk False ?t1 ?cur ?cs = (Inr (final ?cur ?cs), ?t1)" .
  from f have nm: "filename \<noteq> ''.''" "filename \<noteq> ''..''" by (auto simp: valid_filename_def)
  have st: "start ?w1 ?path = ?cur"
    using start_join [OF d(1) f, of ?w1] by (simp add: start_def)
  have l: "locate ?path ?w1 = Inr ?doc"
    using join_no_NUL [OF d(2) f] join_not_Nil [OF f] components_join [OF f d(1)] wk1 nm st
    by (simp add: locate_def)
  from tgt have nd: "fs ?w1 ?doc \<noteq> Some Dir"
    by (simp add: target_def dir_levels_def)
  from open_w_ok [OF l nd last_join [OF f]]
  have o: "open_w ?path ?w1 = (Inr ?doc, ?w1\<lparr>fs := (fs ?w1)(?doc \<mapsto> File [])\<rparr>)" .
  have eq: "(?t1)(?doc \<mapsto> File out) =
    (\<lambda>p. if p = target w output_dir filename then Some (File out)
          else if p \<in> set (dir_levels w output_dir) then Some Dir else fs w p)"
    by (auto simp: fun_eq_iff target_def dir_levels_def)
  from m o enc eq show ?thesis
    by (cases r) (simp_all add: write_json_log_def json_dump_def file_write_def print_line_def)
qed

text \<open>After a write that returned, the document can be read at the joined path.\<close>

lemma write_json_log_document:
  assumes "fst (write_json_log frepr data output_dir filename w) = Inr v"
  shows "serializable data \<and>
    open_r (path_join output_dir filename)
      (snd (write_json_log frepr data output_dir filename w)) = Inr (fst (iterencode frepr 0 data))"
proof (cases rule: write_json_log_stages [of output_dir w frepr data filename])
  case (makedirs_fails e w1)
  with assms show ?thesis by simp
next
  case (open_fails e w1)
  with assms show ?thesis by simp
next
  case (dump_fails e w1 doc out)
  with assms show ?thesis by simp
next
  case (written w1 doc out)
  let ?w' = "print_line (''[info] Wrote log to '' @ path_join output_dir filename)
            (w1\<lparr>fs := (fs w1)(doc \<mapsto> File out)\<rparr>)"
  have l: "locate (path_join output_dir filename) ?w' = Inr doc"
    using locate_update [OF written(2,3), of "File out" ?w'] by (simp add: print_line_def)
  have "fs ?w' doc = Some (File out)" by (simp add: print_line_def)
  with l written(4) have "open_r (path_join output_dir filename) ?w' = Inr out"
    by (simp add: open_r_def lookup_located)
  moreover from written(5) encode_outcome(1) [of frepr 0 data] have "serializable data" by simp
  ultimately show ?thesis using written(5,6) by simp
qed

lemma write_in_logs:
  assumes n: "valid_filename n" and s: "serializable data"
    and l: "\<forall>x. fs w (cwd w @ [''logs'']) \<noteq> Some (File x)"
    and t: "fs w (cwd w @ [''logs'', n]) \<noteq> Some Dir"
  shows "write_json_log frepr data ''./logs'' n w =
    (Inr PNone,
     w\<lparr>fs := (fs w)(cwd w @ [''logs''] \<mapsto> Dir, cwd w @ [''logs'', n] \<mapsto> File (pretty frepr 0 data)),
       stdout := stdout w @ [''[info] Wrote log to ./logs/'' @ n]\<rparr>)"
proof -
  have c: "components ''./logs'' = [''.'', ''logs'']" by code_simp
  have lv: "dir_levels w ''./logs'' = [cwd w @ [''logs'']]"
    by (simp add: dir_levels_def c start_def)
  have tg: "target w ''./logs'' n = cwd w @ [''logs'', n]"
    by (simp add: target_def c start_def)
  from n have hd: "hd n \<noteq> CHR ''/''" by (cases n) (auto simp: valid_filename_def)
  with n have pj: "path_join ''./logs'' n = ''./logs/'' @ n"
    by (simp add: path_join_def valid_filename_def)
  have eq: "(\<lambda>p. if p = cwd w @ [''logs'', n] then Some (File (pretty frepr 0 data))
                 else if p \<in> set [cwd w @ [''logs'']] then Some Dir else fs w p) =
    (fs w)(cwd w @ [''logs''] \<mapsto> Dir, cwd w @ [''logs'', n] \<mapsto> File (pretty frepr 0 data))"
    by (auto simp: fun_eq_iff)
  have "write_json_log frepr data ''./logs'' n w =
    (Inr PNone,
         w\<lparr>fs := (\<lambda>p. if p = target w ''./logs'' n then Some (File (pretty frepr 0 data))
                      else if p \<in> set (dir_levels w ''./logs'') then Some Dir else fs w p),
           stdout := stdout w @ [''[info] Wrote log to '' @ path_join ''./logs'' n]\<rparr>)"
    using write_json_log_result [of "''./logs''" n w frepr data "pretty frepr 0 data" None]
      n l t encode_pretty(1) [OF s, of frepr 0]
    by (simp add: lv tg)
  then show ?thesis unfolding lv tg pj eq by simp
qed

lemma serializable_records:
  "serializable (commit_metadata now)"
  "serializable (run_sonarqube_analysis a b c)"
  "serializable (fst (capture_ai_interactions p r w))"
  "serializable coverage"
  by (simp_all add: commit_metadata_def run_sonarqube_analysis_def capture_ai_interactions_def
      coverage_def utcnow_def)

lemma valid_names:
  "valid_filename ''commit_metadata.json''" "valid_filename ''sonar_metrics.json''"
  "valid_filename ''ai_interactions.json''" "valid_filename ''coverage.json''"
  by code_simp+

lemma pretty_coverage:
  assumes "frepr 0x4055400000000000 = ''85.0''"
  shows \<open>pretty frepr 0 coverage =
    ''{\<newline>  "total_lines": 1000,\<newline>  "covered_lines": 850,\<newline>  "coverage_percent": 85.0\<newline>}''\<close>
proof -
  have f: "floatstr frepr 0x4055400000000000 = ''85.0''"
    using assms by (simp add: floatstr_def is_nan_def)
  have k: "py_encode_basestring_ascii (str ''total_lines'') = [dquote] @ ''total_lines'' @ [dquote]"
    "py_encode_basestring_ascii (str ''covered_lines'') = [dquote] @ ''covered_lines'' @ [dquote]"
    "py_encode_basestring_ascii (str ''coverage_percent'') = [dquote] @ ''coverage_percent'' @ [dquote]"
    by code_simp+
  have i: "intstr 1000 = ''1000''" "intstr 850 = ''850''" by code_simp+
  show ?thesis
    by (simp add: coverage_def f k i indent_def newline_def dquote_def numeral_2_eq_2)
qed

section \<open>Properties of the decoder\<close>

subsection \<open>Strings\<close>

lemma char_of_eq_iff: "a < 256 \<Longrightarrow> (char_of (a::nat) = c) \<longleftrightarrow> (a = of_char c)"
proof
  assume a: "a < 256" and "char_of a = c"
  then have "of_char (char_of a :: char) = (of_char c :: nat)" by simp
  with a show "a = of_char c" by simp
next
  assume "a = of_char c"
  then show "char_of a = c" by simp
qed

lemma hex_val_hex_digit: "d < 16 \<Longrightarrow> hex_val (hex_digit d) = Some d"
  by (auto simp: hex_val_def hex_digit_def Let_def)

lemma hex4_value:
  fixes n :: nat
  assumes "n < 65536"
  shows "((n div 4096 mod 16 * 16 + n div 256 mod 16) * 16 + n div 16 mod 16) * 16 + n mod 16 = n"
proof -
  define x where "x = n div 4096 mod 16"
  define y where "y = n div 256 mod 16"
  define z where "z = n div 16 mod 16"
  define u where "u = n mod 16"
  have a: "n mod 256 = 16 * z + u"
    using mod_mult2_eq [of n 16 16] by (simp add: z_def u_def)
  have b: "n mod 4096 = 256 * y + n mod 256"
    using mod_mult2_eq [of n 256 16] by (simp add: y_def)
  have c: "n mod 65536 = 4096 * x + n mod 4096"
    using mod_mult2_eq [of n 4096 16] by (simp add: x_def)
  from assms have d: "n mod 65536 = n" by simp
  have "((x * 16 + y) * 16 + z) * 16 + u = 4096 * x + 256 * y + 16 * z + u"
    by simp
  with a b c d have "((x * 16 + y) * 16 + z) * 16 + u = n" by linarith
  then show ?thesis by (simp only: x_def y_def z_def u_def)
qed

lemma decode_hex4:
  assumes "n < 65536"
  shows "decode_uXXXX (hex_digit (n div 4096 mod 16) # hex_digit (n div 256 mod 16) #
     hex_digit (n div 16 mod 16) # hex_digit (n mod 16) # r) = Some (n, r)"
proof -
  have "decode_uXXXX (hex_digit (n div 4096 mod 16) # hex_digit (n div 256 mod 16) #
     hex_digit (n div 16 mod 16) # hex_digit (n mod 16) # r) =
     Some (((n div 4096 mod 16 * 16 + n div 256 mod 16) * 16 + n div 16 mod 16) * 16 + n mod 16, r)"
    by (simp only: decode_uXXXX.simps hex_val_hex_digit [OF mod_less_divisor [OF zero_less_numeral]]
        option.case prod.case)
  with hex4_value [OF assms] show ?thesis by (simp only:)
qed

lemma of_char_consts [simp]:
  "(of_char dquote :: nat) = 34" "(of_char bslash :: nat) = 92"
  by (simp_all add: dquote_def bslash_def)

lemma scanstring_short:
  assumes "backslash e = Some n" "e \<noteq> CHR ''u''"
  shows "scanstring (bslash # e # R) = cons_char n (scanstring R)"
  using assms by (simp add: bslash_def dquote_def)

lemma scanstring_plain:
  assumes "32 \<le> a" "a \<le> 126" "a \<noteq> 0x22" "a \<noteq> 0x5C"
  shows "scanstring (char_of a # R) = cons_char a (scanstring R)"
proof -
  from assms have lt: "a < 256" by simp
  have "char_of a \<noteq> dquote" "char_of a \<noteq> bslash"
    using assms by (simp_all add: char_of_eq_iff [OF lt])
  moreover have "(of_char (char_of a :: char) :: nat) = a" using lt by simp
  ultimately show ?thesis using assms by simp
qed

lemma scanstring_u:
  assumes "n < 65536" "high_surrogate n \<longrightarrow> no_low_escape R"
  shows "scanstring (u_escape n @ R) = cons_char n (scanstring R)"
proof -
  have "scanstring (u_escape n @ R) =
    (if 0xD800 \<le> n \<and> n \<le> 0xDBFF \<and> take 2 R = [bslash, CHR ''u''] then
       (case decode_uXXXX (drop 2 R) of
          None \<Rightarrow> None
        | Some (uni2, r2) \<Rightarrow>
           if 0xDC00 \<le> uni2 \<and> uni2 \<le> 0xDFFF
           then cons_char (0x10000 + ((n - 0xD800) * 1024 + (uni2 - 0xDC00))) (scanstring r2)
           else cons_char n (scanstring R))
     else cons_char n (scanstring R))"
    using decode_hex4 [OF assms(1), of R]
    by (simp add: u_escape_def bslash_def dquote_def)
  with assms(2) show ?thesis
    by (auto simp: high_surrogate_def no_low_escape_def low_surrogate_def bslash_def)
qed

lemma scanstring_pair:
  assumes "65536 \<le> a" "a < 0x110000"
  shows "scanstring (u_escape (0xD800 + (a - 0x10000) div 1024 mod 1024)
            @ u_escape (0xDC00 + (a - 0x10000) mod 1024) @ R) = cons_char a (scanstring R)"
proof -
  define m where "m = a - 0x10000"
  define h where "h = 0xD800 + m div 1024 mod 1024"
  define l where "l = 0xDC00 + m mod 1024"
  from assms have m: "m < 0x100000" "a = 0x10000 + m" by (simp_all add: m_def)
  then have d: "m div 1024 < 1024" by simp
  have h: "h < 65536" "0xD800 \<le> h" "h \<le> 0xDBFF" using d by (simp_all add: h_def)
  have l: "l < 65536" "0xDC00 \<le> l" "l \<le> 0xDFFF"
    using mod_less_divisor [of 1024 m] by (simp_all add: l_def)
  have v: "0x10000 + ((h - 0xD800) * 1024 + (l - 0xDC00)) = a"
    using d m by (simp add: h_def l_def)
  have "scanstring (u_escape h @ u_escape l @ R) =
    (if 0xD800 \<le> h \<and> h \<le> 0xDBFF \<and> take 2 (u_escape l @ R) = [bslash, CHR ''u''] then
       (case decode_uXXXX (drop 2 (u_escape l @ R)) of
          None \<Rightarrow> None
        | Some (uni2, r2) \<Rightarrow>
           if 0xDC00 \<le> uni2 \<and> uni2 \<le> 0xDFFF
           then cons_char (0x10000 + ((h - 0xD800) * 1024 + (uni2 - 0xDC00))) (scanstring r2)
           else cons_char h (scanstring (u_escape l @ R)))
     else cons_char h (scanstring (u_escape l @ R)))"
    using decode_hex4 [OF h(1), of "u_escape l @ R"]
    by (simp add: u_escape_def [of h] bslash_def dquote_def)
  moreover have "take 2 (u_escape l @ R) = [bslash, CHR ''u'']"
    by (simp add: u_escape_def)
  moreover have "decode_uXXXX (drop 2 (u_escape l @ R)) = Some (l, R)"
    using decode_hex4 [OF l(1), of R] by (simp add: u_escape_def)
  ultimately have "scanstring (u_escape h @ u_escape l @ R) = cons_char a (scanstring R)"
    using h l v by simp
  then show ?thesis by (simp only: h_def l_def m_def)
qed

lemma scanstring_escape_char:
  assumes "a < 0x110000" "high_surrogate a \<longrightarrow> no_low_escape R"
  shows "scanstring (escape_char a @ R) = cons_char a (scanstring R)"
proof -
  consider "a = 0x5C" | "a = 0x22" | "a = 0x08" | "a = 0x0C" | "a = 0x0A" | "a = 0x0D" | "a = 0x09"
    | "32 \<le> a" "a \<le> 126" "a \<noteq> 0x22" "a \<noteq> 0x5C"
    | "a < 32 \<or> 126 < a" "a < 0x10000" "a \<noteq> 0x08" "a \<noteq> 0x0C" "a \<noteq> 0x0A" "a \<noteq> 0x0D" "a \<noteq> 0x09"
    | "0x10000 \<le> a"
    by linarith
  then show ?thesis
  proof cases
    case 8
    then show ?thesis using scanstring_plain [OF 8, of R] by (simp add: escape_char_def)
  next
    case 9
    then have "escape_char a = u_escape a" by (auto simp: escape_char_def)
    with scanstring_u [OF 9(2) assms(2)] show ?thesis by simp
  next
    case 10
    then have "escape_char a = u_escape (0xD800 + (a - 0x10000) div 1024 mod 1024)
            @ u_escape (0xDC00 + (a - 0x10000) mod 1024)" by (simp add: escape_char_def)
    with scanstring_pair [OF 10 assms(1), of R] show ?thesis by simp
  qed (simp_all add: escape_char_def scanstring_short backslash_def bslash_def dquote_def)
qed

lemma no_low_escape_enc:
  assumes "list_all (\<lambda>n. n < 0x110000) s" and "s \<noteq> [] \<longrightarrow> \<not> low_surrogate (hd s)"
  shows "no_low_escape (concat (map escape_char s) @ dquote # rest)"
proof (cases s)
  case Nil
  then show ?thesis by (simp add: no_low_escape_def dquote_def bslash_def)
next
  case (Cons b s')
  let ?R = "concat (map escape_char s') @ dquote # rest"
  from Cons assms have b: "b < 0x110000" "\<not> low_surrogate b" by simp_all
  consider "b = 0x5C" | "b = 0x22" | "b = 0x08" | "b = 0x0C" | "b = 0x0A" | "b = 0x0D" | "b = 0x09"
    | "32 \<le> b" "b \<le> 126" "b \<noteq> 0x22" "b \<noteq> 0x5C"
    | "b < 32 \<or> 126 < b" "b < 0x10000" "b \<noteq> 0x08" "b \<noteq> 0x0C" "b \<noteq> 0x0A" "b \<noteq> 0x0D" "b \<noteq> 0x09"
    | "0x10000 \<le> b"
    by linarith
  then have "no_low_escape (escape_char b @ ?R)"
  proof cases
    case 8
    then have "b < 256" by simp
    from 8 char_of_eq_iff [OF this, of bslash] have "char_of b \<noteq> bslash" by simp
    with 8 show ?thesis by (simp add: escape_char_def no_low_escape_def)
  next
    case 9
    then have e: "escape_char b = u_escape b" by (auto simp: escape_char_def)
    have "decode_uXXXX (drop 2 (u_escape b @ ?R)) = Some (b, ?R)"
      using decode_hex4 [OF 9(2), of ?R] by (simp add: u_escape_def)
    with b(2) e show ?thesis by (auto simp: no_low_escape_def)
  next
    case 10
    define h where "h = 0xD800 + (b - 0x10000) div 1024 mod 1024"
    define l where "l = 0xDC00 + (b - 0x10000) mod 1024"
    have h: "h < 65536" "\<not> low_surrogate h"
      using mod_less_divisor [of 1024 "(b - 0x10000) div 1024"]
      by (simp_all add: h_def low_surrogate_def)
    from 10 have e: "escape_char b = u_escape h @ u_escape l"
      by (simp add: escape_char_def h_def l_def)
    have "decode_uXXXX (drop 2 (u_escape h @ u_escape l @ ?R)) = Some (h, u_escape l @ ?R)"
      using decode_hex4 [OF h(1), of "u_escape l @ ?R"] by (simp add: u_escape_def [of h])
    with h(2) e show ?thesis by (auto simp: no_low_escape_def)
  qed (simp_all add: escape_char_def no_low_escape_def bslash_def dquote_def)
  with Cons show ?thesis by simp
qed

lemma no_surrogate_pair_tl: "no_surrogate_pair (a # s) \<Longrightarrow> no_surrogate_pair s"
  by (cases s) auto

lemma no_surrogate_pair_hd:
  "no_surrogate_pair (a # s) \<Longrightarrow> high_surrogate a \<Longrightarrow> s \<noteq> [] \<Longrightarrow> \<not> low_surrogate (hd s)"
  by (cases s) (auto simp: high_surrogate_def low_surrogate_def)

lemma scanstring_encode:
  assumes "valid_str s"
  shows "scanstring (concat (map escape_char s) @ dquote # rest) = Some (s, rest)"
  using assms unfolding valid_str_def
proof (induction s)
  case Nil
  then show ?case by simp
next
  case (Cons a s)
  let ?R = "concat (map escape_char s) @ dquote # rest"
  from Cons.prems have a: "a < 0x110000" and s: "list_all (\<lambda>n. n < 0x110000) s"
    and p: "no_surrogate_pair (a # s)" by simp_all
  from Cons.IH s no_surrogate_pair_tl [OF p] have IH: "scanstring ?R = Some (s, rest)" by simp
  have "high_surrogate a \<longrightarrow> no_low_escape ?R"
    using no_low_escape_enc [OF s, of rest] no_surrogate_pair_hd [OF p] by blast
  from scanstring_escape_char [OF a this] IH show ?case
    by (simp add: cons_char_def)
qed

lemma scanstring_basestring:
  "valid_str s \<Longrightarrow> scanstring (tl (py_encode_basestring_ascii s) @ rest) = Some (s, rest)"
  using scanstring_encode [of s rest] by (simp add: py_encode_basestring_ascii_def)

subsection \<open>Numbers\<close>

lemma number_end_simps [simp]:
  "number_end []" "number_end (CHR '','' # r)" "number_end (newline # r)"
  by (simp_all add: number_end_def is_digit_def newline_def)

lemma takeWhile_digits_append:
  assumes "number_end rest"
  shows "takeWhile is_digit (xs @ rest) = takeWhile is_digit xs"
    and "dropWhile is_digit (xs @ rest) = dropWhile is_digit xs @ rest"
proof -
  from assms have r: "takeWhile is_digit rest = []" "dropWhile is_digit rest = rest"
    by (cases rest; simp add: number_end_def)+
  show "takeWhile is_digit (xs @ rest) = takeWhile is_digit xs"
    by (induction xs) (simp_all add: r)
  show "dropWhile is_digit (xs @ rest) = dropWhile is_digit xs @ rest"
    by (induction xs) (simp_all add: r)
qed

lemma match_integer_append:
  assumes "match_integer t = Some (i, r)" "number_end rest"
  shows "match_integer (t @ rest) = Some (i, r @ rest)"
proof (cases t)
  case Nil
  with assms show ?thesis by (simp add: match_integer_def Let_def)
next
  case (Cons a t')
  show ?thesis
  proof (cases "a = CHR ''-''")
    case True
    with Cons assms(1) obtain c cs where t': "t' = c # cs"
      by (cases t') (auto simp: match_integer_def)
    with True Cons assms show ?thesis
      by (auto simp: match_integer_def Let_def takeWhile_digits_append split: if_splits)
  next
    case False
    with Cons assms show ?thesis
      by (auto simp: match_integer_def Let_def takeWhile_digits_append split: if_splits)
  qed
qed

lemma match_frac_append:
  assumes "match_frac t = (f, r)" "number_end rest"
  shows "match_frac (t @ rest) = (f, r @ rest)"
proof (cases t)
  case Nil
  with assms show ?thesis
    by (cases rest; cases "tl rest") (auto simp: match_frac_def number_end_def)
next
  case (Cons c t')
  show ?thesis
  proof (cases t')
    case Nil
    with Cons assms show ?thesis
      by (cases rest) (auto simp: match_frac_def number_end_def)
  next
    case (Cons d t'')
    with \<open>t = c # t'\<close> assms show ?thesis
      by (auto simp: match_frac_def takeWhile_digits_append split: if_splits)
  qed
qed

lemma match_exp_append:
  assumes "match_exp t = (e, r)" "number_end rest"
  shows "match_exp (t @ rest) = (e, r @ rest)"
proof (cases t)
  case Nil
  with assms show ?thesis
    by (cases rest) (auto simp: match_exp_def number_end_def)
next
  case (Cons c t')
  show ?thesis
  proof (cases "c = CHR ''e'' \<or> c = CHR ''E''")
    case False
    with Cons assms show ?thesis by (auto simp: match_exp_def)
  next
    case True
    show ?thesis
    proof (cases t')
      case Nil
      with True \<open>t = c # t'\<close> assms show ?thesis
        by (cases rest) (auto simp: match_exp_def number_end_def Let_def)
    next
      case (Cons s t'')
      show ?thesis
      proof (cases "s = CHR ''-'' \<or> s = CHR ''+''")
        case sign: True
        show ?thesis
        proof (cases t'')
          case Nil
          with sign True Cons \<open>t = c # t'\<close> assms show ?thesis
            by (cases rest) (auto simp: match_exp_def number_end_def Let_def)
        next
          case (Cons d t3)
          with sign True \<open>t' = s # t''\<close> \<open>t = c # t'\<close> assms show ?thesis
            by (auto simp: match_exp_def Let_def takeWhile_digits_append split: if_splits)
        qed
      next
        case False
        with True Cons \<open>t = c # t'\<close> assms show ?thesis
          by (auto simp: match_exp_def Let_def takeWhile_digits_append split: if_splits)
      qed
    qed
  qed
qed

lemma match_number_append:
  assumes "match_number t = Some (i, f, e, r)" "number_end rest"
  shows "match_number (t @ rest) = Some (i, f, e, r @ rest)"
proof -
  from assms(1) obtain r1 r2 where a: "match_integer t = Some (i, r1)"
    and b: "match_frac r1 = (f, r2)" and c: "match_exp r2 = (e, r)"
    by (auto simp: match_number_def split: option.splits prod.splits)
  from match_integer_append [OF a assms(2)] match_frac_append [OF b assms(2)]
    match_exp_append [OF c assms(2)]
  show ?thesis by (simp add: match_number_def)
qed

lemma match_integer_parts: "match_integer t = Some (i, r) \<Longrightarrow> t = i @ r"
  by (cases t; cases "tl t")
     (auto simp: match_integer_def Let_def split: if_splits list.splits)

lemma match_frac_parts: "match_frac t = (f, r) \<Longrightarrow> t = f @ r"
  by (auto simp: match_frac_def split: if_splits list.splits)

lemma match_exp_parts: "match_exp t = (e, r) \<Longrightarrow> t = e @ r"
  by (cases t; cases "tl t")
     (auto simp: match_exp_def Let_def split: if_splits list.splits)

lemma match_number_parts: "match_number t = Some (i, f, e, r) \<Longrightarrow> t = i @ f @ e @ r"
  by (auto simp: match_number_def split: option.splits prod.splits
      dest!: match_integer_parts match_frac_parts match_exp_parts)

lemma match_number_first:
  "match_number t = Some (i, f, e, r) \<Longrightarrow> t \<noteq> [] \<and> (hd t = CHR ''-'' \<or> is_digit (hd t))"
  by (cases t) (auto simp: match_number_def match_integer_def Let_def is_digit_def
      split: option.splits prod.splits if_splits list.splits)

lemma digit_char_props:
  assumes "d < 10"
  shows "is_digit (digit_char d)" "(of_char (digit_char d) :: nat) = 48 + d"
    "digit_char d = CHR ''0'' \<longleftrightarrow> d = 0" "digit_char d \<noteq> CHR ''-''"
proof -
  from assms have lt: "48 + d < 256" by simp
  show o: "(of_char (digit_char d) :: nat) = 48 + d"
    using lt by (simp add: digit_char_def)
  then show "is_digit (digit_char d)" using assms by (simp add: is_digit_def)
  show "digit_char d = CHR ''0'' \<longleftrightarrow> d = 0"
    using char_of_eq_iff [OF lt, of "CHR ''0''"] by (simp add: digit_char_def)
  show "digit_char d \<noteq> CHR ''-''"
    using char_of_eq_iff [OF lt, of "CHR ''-''"] by (simp add: digit_char_def)
qed

lemma nat_str_not_Nil [simp]: "nat_str n \<noteq> []"
  by (subst nat_str.simps) simp

lemma nat_str_digits: "list_all is_digit (nat_str n)"
proof (induction n rule: nat_str.induct)
  case (1 n)
  show ?case
  proof (cases "n < 10")
    case True
    then show ?thesis by (subst nat_str.simps) (simp add: digit_char_props)
  next
    case False
    with 1 show ?thesis
      by (subst nat_str.simps) (simp add: digit_char_props)
  qed
qed

lemma nat_str_hd: "hd (nat_str n) = CHR ''0'' \<longleftrightarrow> n = 0"
proof (induction n rule: nat_str.induct)
  case (1 n)
  show ?case
  proof (cases "n < 10")
    case True
    then show ?thesis by (subst nat_str.simps) (simp add: digit_char_props)
  next
    case False
    then have "n div 10 \<noteq> 0" by simp
    with 1 False show ?thesis
      by (subst nat_str.simps) simp
  qed
qed

lemma nat_str_0: "nat_str 0 = ''0''"
  using digit_char_props(3) [of 0] by (subst nat_str.simps) simp

lemma nat_of_digits_snoc:
  "nat_of_digits (xs @ [c]) = 10 * nat_of_digits xs + (of_char c - 48)"
  by (simp add: nat_of_digits_def)

lemma nat_of_digits_nat_str: "nat_of_digits (nat_str n) = n"
proof (induction n rule: nat_str.induct)
  case (1 n)
  show ?case
  proof (cases "n < 10")
    case True
    then show ?thesis
      by (subst nat_str.simps) (simp add: nat_of_digits_def digit_char_props)
  next
    case False
    with 1 show ?thesis
      by (subst nat_str.simps) (simp add: nat_of_digits_snoc digit_char_props)
  qed
qed

lemma nat_str_no_sign: "hd (nat_str n) \<noteq> CHR ''-''"
proof -
  from nat_str_digits [of n] have "is_digit (hd (nat_str n))"
    by (cases "nat_str n") simp_all
  then show ?thesis by (auto simp: is_digit_def)
qed

lemma match_integer_nat_str: "match_integer (nat_str n) = Some (nat_str n, [])"
proof (cases "nat_str n")
  case Nil
  then show ?thesis by simp
next
  case (Cons c cs)
  with nat_str_digits [of n] have d: "is_digit c" "list_all is_digit cs" by simp_all
  then have tw: "takeWhile is_digit cs = cs" "dropWhile is_digit cs = []"
    by (simp_all add: list_all_iff)
  from nat_str_no_sign [of n] Cons have ns: "c \<noteq> CHR ''-''" by simp
  show ?thesis
  proof (cases "c = CHR ''0''")
    case True
    with nat_str_hd [of n] Cons have "n = 0" by simp
    with Cons nat_str_0 have "cs = []" by simp
    with True Cons ns show ?thesis by (simp add: match_integer_def)
  next
    case False
    with Cons ns d tw show ?thesis by (simp add: match_integer_def)
  qed
qed

lemma match_integer_intstr: "match_integer (intstr i) = Some (intstr i, [])"
proof (cases "i < 0")
  case False
  with match_integer_nat_str show ?thesis by (simp add: intstr_def)
next
  case True
  from match_integer_nat_str [of "nat (- i)"] nat_str_no_sign [of "nat (- i)"]
  have "match_integer (CHR ''-'' # nat_str (nat (- i))) = Some (CHR ''-'' # nat_str (nat (- i)), [])"
    by (cases "nat_str (nat (- i))")
       (auto simp: match_integer_def Let_def split: if_splits)
  with True show ?thesis by (simp add: intstr_def)
qed

lemma match_number_intstr:
  "number_end rest \<Longrightarrow> match_number (intstr i @ rest) = Some (intstr i, [], [], rest)"
proof -
  assume r: "number_end rest"
  have "match_number (intstr i) = Some (intstr i, [], [], [])"
    by (simp add: match_number_def match_integer_intstr match_frac_def match_exp_def)
  from match_number_append [OF this r] show ?thesis by simp
qed

lemma parse_int_intstr: "parse_int (intstr i) = i"
proof (cases "i < 0")
  case True
  then show ?thesis by (simp add: parse_int_def intstr_def nat_of_digits_nat_str)
next
  case False
  with nat_str_no_sign [of "nat i"] show ?thesis
    by (simp add: parse_int_def intstr_def nat_of_digits_nat_str)
qed

lemma intstr_first: "intstr i \<noteq> [] \<and> (hd (intstr i) = CHR ''-'' \<or> is_digit (hd (intstr i)))"
  using match_number_first [of "intstr i" "intstr i" "[]" "[]" "[]"] match_number_intstr [of "[]" i]
  by simp

subsection \<open>Whitespace and first characters\<close>

lemma skip_ws_replicate: "skip_ws (replicate n CHR '' '' @ s) = skip_ws s"
  by (induction n) (simp_all add: skip_ws_def is_ws_def)

lemma skip_ws_indent [simp]: "skip_ws (indent k @ s) = skip_ws s"
  by (simp add: indent_def skip_ws_replicate)

lemma skip_ws_newline [simp]: "skip_ws (newline # s) = skip_ws s"
  by (simp add: skip_ws_def is_ws_def newline_def)

lemma skip_ws_space [simp]: "skip_ws (CHR '' '' # s) = skip_ws s"
  by (simp add: skip_ws_def is_ws_def)

lemma skip_ws_stop: "\<not> is_ws c \<Longrightarrow> skip_ws (c # s) = c # s"
  by (simp add: skip_ws_def)

lemma skip_ws_Nil [simp]: "skip_ws [] = []"
  by (simp add: skip_ws_def)

lemma digit_value_start: "is_digit c \<Longrightarrow> value_start c"
  by (auto simp: is_digit_def value_start_def is_ws_def)

lemma floatstr_token:
  assumes "float_ok frepr fparse x"
  shows "floatstr frepr x = ''Infinity'' \<and> x = 0x7FF0000000000000
    \<or> floatstr frepr x = ''-Infinity'' \<and> x = 0xFFF0000000000000
    \<or> floatstr frepr x = frepr x \<and> is_float_token (frepr x) \<and> fparse (frepr x) = x"
  using assms by (auto simp: float_ok_def floatstr_def)

lemma is_float_token_first:
  "is_float_token t \<Longrightarrow> t \<noteq> [] \<and> (hd t = CHR ''-'' \<or> is_digit (hd t))"
  by (auto simp: is_float_token_def split: option.splits dest: match_number_first)

lemma pretty_first:
  assumes "json_like frepr fparse v"
  shows "\<exists>c cs. pretty frepr lvl v = c # cs \<and> value_start c"
proof (cases v)
  case PNone
  then show ?thesis by (simp add: value_start_def is_ws_def)
next
  case (PBool b)
  then show ?thesis by (simp add: value_start_def is_ws_def)
next
  case (PInt i)
  from intstr_first [of i] obtain c cs where "intstr i = c # cs" "c = CHR ''-'' \<or> is_digit c"
    by (cases "intstr i") auto
  with PInt show ?thesis
    by (auto simp: digit_value_start) (simp add: value_start_def is_ws_def)
next
  case (PFloat x)
  with assms have ok: "float_ok frepr fparse x" by simp
  from floatstr_token [OF ok] show ?thesis
  proof (elim disjE conjE)
    assume "floatstr frepr x = frepr x" "is_float_token (frepr x)"
    with is_float_token_first [of "frepr x"] obtain c cs where
      "floatstr frepr x = c # cs" "c = CHR ''-'' \<or> is_digit c"
      by (cases "frepr x") auto
    with PFloat show ?thesis
      by (auto simp: digit_value_start) (simp add: value_start_def is_ws_def)
  qed (use PFloat in \<open>simp_all add: value_start_def is_ws_def\<close>)
next
  case (PStr s)
  then show ?thesis
    by (simp add: py_encode_basestring_ascii_def value_start_def is_ws_def dquote_def)
next
  case (PList vs)
  then show ?thesis by (simp add: value_start_def is_ws_def)
next
  case (PDict kvs)
  then show ?thesis by (simp add: value_start_def is_ws_def)
qed (use assms in simp_all)

lemma skip_ws_pretty:
  assumes "json_like frepr fparse v"
  shows "skip_ws (pretty frepr lvl v @ s) = pretty frepr lvl v @ s"
proof -
  from pretty_first [OF assms, of lvl] obtain c cs where
    "pretty frepr lvl v = c # cs" "value_start c" by blast
  then show ?thesis by (simp add: skip_ws_stop value_start_def)
qed

subsection \<open>Dictionaries from pairs\<close>

lemma dict_setitem_new: "k \<notin> fst ` set d \<Longrightarrow> dict_setitem k v d = d @ [(k, v)]"
  by (induction d) auto

lemma dict_of_pairs_distinct_aux:
  "distinct (map fst (d @ kvs)) \<Longrightarrow>
   foldl (\<lambda>d (k, v). dict_setitem k v d) d kvs = d @ kvs"
proof (induction kvs arbitrary: d)
  case Nil
  then show ?case by simp
next
  case (Cons kv kvs)
  obtain k v where kv: "kv = (k, v)" by (cases kv)
  from Cons.prems kv have "k \<notin> fst ` set d" by auto
  then have "dict_setitem k v d = d @ [(k, v)]" by (rule dict_setitem_new)
  moreover from Cons.prems kv have "distinct (map fst ((d @ [(k, v)]) @ kvs))" by simp
  ultimately show ?case using Cons.IH [of "d @ [(k, v)]"] kv by simp
qed

lemma dict_of_pairs_distinct: "distinct (map fst kvs) \<Longrightarrow> dict_of_pairs kvs = kvs"
  using dict_of_pairs_distinct_aux [of "[]" kvs] by (simp add: dict_of_pairs_def)

subsection \<open>Scanning the text of a value\<close>

lemma scan_once_number:
  assumes "match_number (t @ rest) = Some (i, f, e, rest)" "t \<noteq> []"
    and "hd t = CHR ''-'' \<or> is_digit (hd t)"
  shows "scan_once fparse (Suc m) (t @ rest) =
    (if f \<noteq> [] \<or> e \<noteq> [] then Some (PFloat (fparse (i @ f @ e)), rest)
     else Some (PInt (parse_int i), rest))"
proof -
  from assms(2) obtain c cs where t: "t = c # cs" by (cases t) auto
  with assms(3) have c: "c = CHR ''-'' \<or> is_digit c" by simp
  then have "c \<noteq> dquote" "c \<noteq> CHR ''{''" "c \<noteq> CHR ''[''" "c \<noteq> CHR ''n''" "c \<noteq> CHR ''t''"
    "c \<noteq> CHR ''f''"
    by (auto simp: is_digit_def dquote_def)
  with assms(1) t show ?thesis by simp
qed

lemma scan_once_int:
  assumes "number_end rest"
  shows "scan_once fparse (Suc m) (intstr i @ rest) = Some (PInt i, rest)"
  using scan_once_number [OF match_number_intstr [OF assms, of i], of fparse m] intstr_first [of i]
  by (simp add: parse_int_intstr)

lemma scan_once_float:
  assumes "float_ok frepr fparse x" "number_end rest"
  shows "scan_once fparse (Suc m) (floatstr frepr x @ rest) = Some (PFloat x, rest)"
  using floatstr_token [OF assms(1)]
proof (elim disjE conjE)
  assume "floatstr frepr x = ''Infinity''" "x = 0x7FF0000000000000"
  moreover have "match_number (''Infinity'' @ rest) = None"
    by (simp add: match_number_def match_integer_def is_digit_def)
  ultimately show ?thesis by (simp add: dquote_def)
next
  assume "floatstr frepr x = ''-Infinity''" "x = 0xFFF0000000000000"
  moreover have "match_number (''-Infinity'' @ rest) = None"
    by (simp add: match_number_def match_integer_def is_digit_def)
  ultimately show ?thesis by (simp add: dquote_def)
next
  assume f: "floatstr frepr x = frepr x" and t: "is_float_token (frepr x)"
    and p: "fparse (frepr x) = x"
  from t obtain i f e where m: "match_number (frepr x) = Some (i, f, e, [])" and fe: "f \<noteq> [] \<or> e \<noteq> []"
    by (auto simp: is_float_token_def split: option.splits)
  from match_number_parts [OF m] have parts: "i @ f @ e = frepr x" by simp
  from match_number_append [OF m assms(2)]
  have "match_number (frepr x @ rest) = Some (i, f, e, rest)" by simp
  from scan_once_number [OF this, of fparse m] is_float_token_first [OF t] fe parts p f
  show ?thesis by auto
qed

lemma scan_once_str:
  assumes "valid_str s"
  shows "scan_once fparse (Suc m) (py_encode_basestring_ascii s @ rest) = Some (PStr s, rest)"
  using scanstring_encode [OF assms, of rest]
  by (simp add: py_encode_basestring_ascii_def)

lemma number_end_after_item: "number_end tail \<Longrightarrow> number_end (after_item later tail)"
  by (simp add: after_item_def)

lemma items_text:
  "join_with ('','' @ [newline]) (pretty_items frepr lvl (v # vs)) @ tail =
   indent lvl @ pretty frepr lvl v @ after_item (pretty_items frepr lvl vs) tail"
  by (simp add: join_with_Cons after_item_def)

lemma members_text:
  "join_with ('','' @ [newline]) (pretty_members frepr lvl ((k, v) # kvs)) @ tail =
   indent lvl @ py_encode_basestring_ascii (the (key_text frepr k)) @ '': '' @ pretty frepr lvl v
     @ after_item (pretty_members frepr lvl kvs) tail"
  by (simp add: join_with_Cons after_item_def)

lemma length_items:
  "length (pretty frepr lvl v) + length (join_with ('','' @ [newline]) (pretty_items frepr lvl vs))
   \<le> length (join_with ('','' @ [newline]) (pretty_items frepr lvl (v # vs)))"
  by (simp add: join_with_Cons)

lemma length_members:
  "length (pretty frepr lvl v) + length (join_with ('','' @ [newline]) (pretty_members frepr lvl kvs))
   \<le> length (join_with ('','' @ [newline]) (pretty_members frepr lvl ((k, v) # kvs)))"
  by (simp add: join_with_Cons)

lemma scan_once_pretty:
  "json_like frepr fparse v \<Longrightarrow>
    (\<forall>lvl n rest. number_end rest \<longrightarrow> length (pretty frepr lvl v) \<le> n \<longrightarrow>
       scan_once fparse n (pretty frepr lvl v @ rest) = Some (v, rest))"
  "json_like_list frepr fparse vs \<Longrightarrow>
    (\<forall>lvl n acc tail rest. vs \<noteq> [] \<longrightarrow>
       length (join_with ('','' @ [newline]) (pretty_items frepr lvl vs)) < n \<longrightarrow>
       skip_ws tail = CHR '']'' # rest \<longrightarrow> number_end tail \<longrightarrow>
       parse_array fparse n acc
         (skip_ws (join_with ('','' @ [newline]) (pretty_items frepr lvl vs) @ tail)) =
       Some (PList (acc @ vs), rest))"
  "json_like_dict frepr fparse kvs \<Longrightarrow>
    (\<forall>lvl n acc tail rest. kvs \<noteq> [] \<longrightarrow>
       length (join_with ('','' @ [newline]) (pretty_members frepr lvl kvs)) < n \<longrightarrow>
       skip_ws tail = CHR ''}'' # rest \<longrightarrow> number_end tail \<longrightarrow>
       parse_object fparse n acc
         (tl (skip_ws (join_with ('','' @ [newline]) (pretty_members frepr lvl kvs) @ tail))) =
       Some (PDict (dict_of_pairs (acc @ kvs)), rest))"
proof (induction frepr fparse v and frepr fparse vs and frepr fparse kvs
    rule: json_like_json_like_list_json_like_dict.induct)
  case (1 frepr fparse)
  show ?case
  proof (intro allI impI)
    fix lvl :: nat and n rest
    assume "length (pretty frepr lvl PNone) \<le> n"
    then obtain m where "n = Suc m" by (cases n) auto
    then show "scan_once fparse n (pretty frepr lvl PNone @ rest) = Some (PNone, rest)"
      by (simp add: dquote_def)
  qed
next
  case (2 frepr fparse b)
  show ?case
  proof (intro allI impI)
    fix lvl :: nat and n rest
    assume "length (pretty frepr lvl (PBool b)) \<le> n"
    then obtain m where "n = Suc m" by (cases n) (auto split: if_splits)
    then show "scan_once fparse n (pretty frepr lvl (PBool b) @ rest) = Some (PBool b, rest)"
      by (cases b) (simp_all add: dquote_def)
  qed
next
  case (3 frepr fparse i)
  show ?case
  proof (intro allI impI)
    fix lvl :: nat and n rest
    assume e: "number_end rest" and "length (pretty frepr lvl (PInt i)) \<le> n"
    with intstr_first [of i] obtain m where "n = Suc m" by (cases n) auto
    with scan_once_int [OF e, of fparse m i]
    show "scan_once fparse n (pretty frepr lvl (PInt i) @ rest) = Some (PInt i, rest)" by simp
  qed
next
  case (4 frepr fparse x)
  then have ok: "float_ok frepr fparse x" by simp
  show ?case
  proof (intro allI impI)
    fix lvl :: nat and n rest
    assume e: "number_end rest" and l: "length (pretty frepr lvl (PFloat x)) \<le> n"
    from pretty_first [of frepr fparse "PFloat x" lvl] ok l obtain m where "n = Suc m"
      by (cases n) auto
    with scan_once_float [OF ok e, of m]
    show "scan_once fparse n (pretty frepr lvl (PFloat x) @ rest) = Some (PFloat x, rest)" by simp
  qed
next
  case (5 frepr fparse s)
  then have ok: "valid_str s" by simp
  show ?case
  proof (intro allI impI)
    fix lvl :: nat and n rest
    assume "length (pretty frepr lvl (PStr s)) \<le> n"
    then obtain m where "n = Suc m"
      by (cases n) (auto simp: py_encode_basestring_ascii_def)
    with scan_once_str [OF ok, of fparse m rest]
    show "scan_once fparse n (pretty frepr lvl (PStr s) @ rest) = Some (PStr s, rest)" by simp
  qed
next
  case (6 frepr fparse vs)
  then have l: "json_like_list frepr fparse vs" by simp
  show ?case
  proof (intro allI impI)
    fix lvl :: nat and n rest
    assume len: "length (pretty frepr lvl (PList vs)) \<le> n"
    show "scan_once fparse n (pretty frepr lvl (PList vs) @ rest) = Some (PList vs, rest)"
    proof (cases vs)
      case Nil
      with len obtain m where "n = Suc m" by (cases n) auto
      with Nil show ?thesis by (simp add: dquote_def skip_ws_stop is_ws_def)
    next
      case (Cons v vs')
      let ?J = "join_with ('','' @ [newline]) (pretty_items frepr (Suc lvl) vs)"
      let ?tail = "newline # indent lvl @ CHR '']'' # rest"
      from Cons len obtain m where n: "n = Suc m" and m: "length ?J < m"
        by (cases n) auto
      have t: "skip_ws ?tail = CHR '']'' # rest" "number_end ?tail"
        by (simp_all add: skip_ws_stop is_ws_def)
      from Cons l have v: "json_like frepr fparse v" by simp
      from pretty_first [OF v, of "Suc lvl"] obtain c cs where
        c: "pretty frepr (Suc lvl) v = c # cs" "value_start c" by blast
      have s: "skip_ws (?J @ ?tail) =
          c # cs @ after_item (pretty_items frepr (Suc lvl) vs') ?tail"
        unfolding Cons items_text using c by (simp add: skip_ws_stop value_start_def)
      from 6(1) [OF l] Cons m t
      have "parse_array fparse m [] (skip_ws (?J @ ?tail)) = Some (PList ([] @ vs), rest)"
        by blast
      moreover have "pretty frepr lvl (PList vs) @ rest = CHR ''['' # newline # ?J @ ?tail"
        using Cons by simp
      ultimately show ?thesis using n s c(2)
        by (simp add: dquote_def value_start_def)
    qed
  qed
next
  case (7 frepr fparse kvs)
  then have d: "distinct (map fst kvs)" and l: "json_like_dict frepr fparse kvs" by simp_all
  show ?case
  proof (intro allI impI)
    fix lvl :: nat and n rest
    assume len: "length (pretty frepr lvl (PDict kvs)) \<le> n"
    show "scan_once fparse n (pretty frepr lvl (PDict kvs) @ rest) = Some (PDict kvs, rest)"
    proof (cases kvs)
      case Nil
      with len obtain m where "n = Suc m" by (cases n) auto
      with Nil show ?thesis by (simp add: dquote_def skip_ws_stop is_ws_def)
    next
      case (Cons kv kvs')
      obtain k v where kv: "kv = (k, v)" by (cases kv)
      let ?J = "join_with ('','' @ [newline]) (pretty_members frepr (Suc lvl) kvs)"
      let ?tail = "newline # indent lvl @ CHR ''}'' # rest"
      from Cons len obtain m where n: "n = Suc m" and m: "length ?J < m"
        by (cases n) auto
      have t: "skip_ws ?tail = CHR ''}'' # rest" "number_end ?tail"
        by (simp_all add: skip_ws_stop is_ws_def)
      obtain r where s: "skip_ws (?J @ ?tail) = dquote # r"
        unfolding Cons kv members_text
        by (simp add: py_encode_basestring_ascii_def skip_ws_stop is_ws_def dquote_def)
      from 7(1) [OF l] Cons m t
      have "parse_object fparse m [] (tl (skip_ws (?J @ ?tail))) =
          Some (PDict (dict_of_pairs ([] @ kvs)), rest)"
        by blast
      moreover have "pretty frepr lvl (PDict kvs) @ rest = CHR ''{'' # newline # ?J @ ?tail"
        using Cons by simp
      ultimately show ?thesis using n s dict_of_pairs_distinct [OF d]
        by (simp add: dquote_def)
    qed
  qed
next
  case (10 frepr fparse v vs)
  from 10(3) have v: "json_like frepr fparse v" and vs: "json_like_list frepr fparse vs"
    by simp_all
  show ?case
  proof (intro allI impI)
    fix lvl n acc tail rest
    let ?J = "join_with ('','' @ [newline]) (pretty_items frepr lvl (v # vs))"
    let ?J' = "join_with ('','' @ [newline]) (pretty_items frepr lvl vs)"
    let ?X = "after_item (pretty_items frepr lvl vs) tail"
    assume len: "length ?J < n" and t: "skip_ws tail = CHR '']'' # rest" and e: "number_end tail"
    from len obtain m where n: "n = Suc m" by (cases n) auto
    from pretty_first [OF v, of lvl] have "0 < length (pretty frepr lvl v)" by auto
    with n len length_items [of frepr lvl v vs]
    have m: "length (pretty frepr lvl v) \<le> m" "length ?J' < m" by linarith+
    have s: "skip_ws (?J @ tail) = pretty frepr lvl v @ ?X"
      unfolding items_text by (simp add: skip_ws_pretty [OF v])
    from 10(1) [OF v] number_end_after_item [OF e] m(1)
    have sc: "scan_once fparse m (pretty frepr lvl v @ ?X) = Some (v, ?X)" by blast
    show "parse_array fparse n acc (skip_ws (?J @ tail)) = Some (PList (acc @ v # vs), rest)"
    proof (cases "vs = []")
      case True
      then have "?X = tail" by (simp add: after_item_def)
      with n s sc t show ?thesis using True by simp
    next
      case False
      then have X: "?X = CHR '','' # newline # ?J' @ tail" by (simp add: after_item_def)
      from 10(2) vs False m(2) t e
      have "parse_array fparse m (acc @ [v]) (skip_ws (?J' @ tail)) =
          Some (PList ((acc @ [v]) @ vs), rest)" by blast
      with n s sc X show ?thesis by (simp add: skip_ws_stop is_ws_def)
    qed
  qed
next
  case (12 frepr fparse k v kvs)
  from 12(3) obtain ks where k: "k = PStr ks" and ks: "valid_str ks"
    by (cases k) auto
  from 12(3) have v: "json_like frepr fparse v" and kvs: "json_like_dict frepr fparse kvs"
    by simp_all
  show ?case
  proof (intro allI impI)
    fix lvl n acc tail rest
    let ?J = "join_with ('','' @ [newline]) (pretty_members frepr lvl ((k, v) # kvs))"
    let ?J' = "join_with ('','' @ [newline]) (pretty_members frepr lvl kvs)"
    let ?X = "after_item (pretty_members frepr lvl kvs) tail"
    assume len: "length ?J < n" and t: "skip_ws tail = CHR ''}'' # rest" and e: "number_end tail"
    from len obtain m where n: "n = Suc m" by (cases n) auto
    from pretty_first [OF v, of lvl] have "0 < length (pretty frepr lvl v)" by auto
    with n len length_members [of frepr lvl v kvs k]
    have m: "length (pretty frepr lvl v) \<le> m" "length ?J' < m" by linarith+
    have s: "tl (skip_ws (?J @ tail)) =
        concat (map escape_char ks) @ dquote # '': '' @ pretty frepr lvl v @ ?X"
      unfolding members_text
      by (simp add: k py_encode_basestring_ascii_def skip_ws_stop is_ws_def dquote_def)
    have key: "scanstring (concat (map escape_char ks) @ dquote # '': '' @ pretty frepr lvl v @ ?X)
        = Some (ks, '': '' @ pretty frepr lvl v @ ?X)"
      by (rule scanstring_encode [OF ks])
    have colon: "skip_ws ('': '' @ pretty frepr lvl v @ ?X) = CHR '':'' # CHR '' '' # pretty frepr lvl v @ ?X"
      by (simp add: skip_ws_stop is_ws_def)
    have val: "skip_ws (CHR '' '' # pretty frepr lvl v @ ?X) = pretty frepr lvl v @ ?X"
      by (simp add: skip_ws_pretty [OF v])
    from 12(1) v number_end_after_item [OF e] m(1)
    have sc: "scan_once fparse m (pretty frepr lvl v @ ?X) = Some (v, ?X)" by blast
    show "parse_object fparse n acc (tl (skip_ws (?J @ tail))) =
        Some (PDict (dict_of_pairs (acc @ (k, v) # kvs)), rest)"
    proof (cases "kvs = []")
      case True
      then have "?X = tail" by (simp add: after_item_def)
      with n s key colon val sc t k show ?thesis using True by simp
    next
      case False
      then obtain k' v' kvs' where c: "kvs = (k', v') # kvs'" by (cases kvs) auto
      from False have X: "?X = CHR '','' # newline # ?J' @ tail" by (simp add: after_item_def)
      obtain r where q: "skip_ws (?J' @ tail) = dquote # r"
        unfolding c members_text
        by (simp add: py_encode_basestring_ascii_def skip_ws_stop is_ws_def dquote_def)
      from 12(2) kvs False m(2) t e
      have "parse_object fparse m (acc @ [(k, v)]) (tl (skip_ws (?J' @ tail))) =
          Some (PDict (dict_of_pairs ((acc @ [(k, v)]) @ kvs)), rest)" by blast
      with n s key colon val sc X q k show ?thesis
        by (simp add: skip_ws_stop is_ws_def)
    qed
  qed
qed simp_all

lemma json_loads_pretty:
  assumes "json_like frepr fparse v"
  shows "json_loads fparse (pretty frepr 0 v) = Inr v"
proof -
  from scan_once_pretty(1) [OF assms]
  have "scan_once fparse (Suc (length (pretty frepr 0 v))) (pretty frepr 0 v @ []) = Some (v, [])"
    by (metis le_SucI number_end_simps(1) order_refl)
  moreover have "skip_ws (pretty frepr 0 v) = pretty frepr 0 v"
    using skip_ws_pretty [OF assms, of 0 "[]"] by simp
  ultimately show ?thesis by (simp add: json_loads_def)
qed

subsection \<open>Runs in the example world\<close>

lemma write_example:
  assumes "serializable data"
  shows "fst (write_json_log frepr data ''logs'' ''x.json'' example_world) = Inr PNone"
    and "read_json fparse (path_join ''logs'' ''x.json'')
          (snd (write_json_log frepr data ''logs'' ''x.json'' example_world)) =
         json_loads fparse (pretty frepr 0 data)"
proof -
  have l: "dir_levels example_world ''logs'' = [[''home'', ''logs'']]"
    and t: "target example_world ''logs'' ''x.json'' = [''home'', ''logs'', ''x.json'']"
    and v: "valid_filename ''x.json''"
    by code_simp+
  have f: "fs example_world [''home'', ''logs''] = None"
    "fs example_world [''home'', ''logs'', ''x.json''] = None"
    by (simp_all add: example_world_def)
  from encode_pretty(1) [OF assms, of frepr 0]
  have enc: "iterencode frepr 0 data = (pretty frepr 0 data, None)" .
  from write_json_log_result [of "''logs''" "''x.json''" example_world frepr data, OF _ _ v _ _ _ enc] f
  show ok: "fst (write_json_log frepr data ''logs'' ''x.json'' example_world) = Inr PNone"
    by (simp add: l t)
  from write_json_log_document [OF ok] enc
  show "read_json fparse (path_join ''logs'' ''x.json'')
          (snd (write_json_log frepr data ''logs'' ''x.json'' example_world)) =
         json_loads fparse (pretty frepr 0 data)"
    by (simp add: read_json_def)
qed

lemma intstr_1: "intstr 1 = ''1''"
  by code_simp

lemma str_ascii: "valid_str (str ''a'')" "valid_str (str ''1'')" "valid_str (str ''k'')"
  "valid_str (str ''files_changed'')" "valid_str (str ''src/module.py'')"
  by (simp_all add: valid_str_def str_def)

lemma json_like_sonar:
  "json_like example_frepr example_fparse (run_sonarqube_analysis a b c)"
proof -
  have t: "is_float_token ''85.0''" "is_float_token ''1.2''" by code_simp+
  have n: "\<not> is_nan 0x4055400000000000" "\<not> is_nan 0x3FF3333333333333" by code_simp+
  have f: "float_ok example_frepr example_fparse 0x4055400000000000"
    "float_ok example_frepr example_fparse 0x3FF3333333333333"
    using t n by (simp_all add: float_ok_def example_frepr_def example_fparse_def)
  have k: "valid_str (str ''code_smells'')" "valid_str (str ''bugs'')"
    "valid_str (str ''vulnerabilities'')" "valid_str (str ''coverage'')"
    "valid_str (str ''duplicated_lines_density'')"
    by (simp_all add: valid_str_def str_def)
  have d: "distinct [PStr (str ''code_smells''), PStr (str ''bugs''), PStr (str ''vulnerabilities''),
      PStr (str ''coverage''), PStr (str ''duplicated_lines_density'')]"
    by (simp add: str_def)
  from f k d show ?thesis by (simp add: run_sonarqube_analysis_def)
qed

section \<open>The claims of the specification\<close>

text \<open>
  Claim C1 says that every JSON-serializable mapping, written by \<open>write_json_log\<close> and
  read back, is the record it was. Three records that \<^verbatim>\<open>json.dump\<close> serializes come back
  changed: a key that is the integer 1 comes back as the string \<^verbatim>\<open>"1"\<close>; a tuple comes
  back as a list; a string of the two code points \<^verbatim>\<open>U+D83D\<close> and \<^verbatim>\<open>U+DE00\<close>, a high and a
  low surrogate, comes back as the one code point \<^verbatim>\<open>U+1F600\<close>.
\<close>

theorem write_json_log_round_trip_counterexample:
  "serializable (PDict [(PInt 1, PStr (str ''a''))])
   \<and> fst (write_json_log example_frepr (PDict [(PInt 1, PStr (str ''a''))]) ''logs'' ''x.json''
         example_world) = Inr PNone
   \<and> read_json example_fparse (path_join ''logs'' ''x.json'')
        (snd (write_json_log example_frepr (PDict [(PInt 1, PStr (str ''a''))]) ''logs'' ''x.json''
           example_world)) = Inr (PDict [(PStr (str ''1''), PStr (str ''a''))])
   \<and> PDict [(PStr (str ''1''), PStr (str ''a''))] \<noteq> PDict [(PInt 1, PStr (str ''a''))]
   \<and> serializable (PDict [(PStr (str ''files_changed''), PTuple [PStr (str ''src/module.py'')])])
   \<and> read_json example_fparse (path_join ''logs'' ''x.json'')
        (snd (write_json_log example_frepr
           (PDict [(PStr (str ''files_changed''), PTuple [PStr (str ''src/module.py'')])])
           ''logs'' ''x.json'' example_world)) =
       Inr (PDict [(PStr (str ''files_changed''), PList [PStr (str ''src/module.py'')])])
   \<and> PDict [(PStr (str ''files_changed''), PList [PStr (str ''src/module.py'')])]
       \<noteq> PDict [(PStr (str ''files_changed''), PTuple [PStr (str ''src/module.py'')])]
   \<and> serializable (PDict [(PStr (str ''k''), PStr [0xD83D, 0xDE00])])
   \<and> read_json example_fparse (path_join ''logs'' ''x.json'')
        (snd (write_json_log example_frepr (PDict [(PStr (str ''k''), PStr [0xD83D, 0xDE00])])
           ''logs'' ''x.json'' example_world)) = Inr (PDict [(PStr (str ''k''), PStr [0x1F600])])
   \<and> PDict [(PStr (str ''k''), PStr [0x1F600])] \<noteq> PDict [(PStr (str ''k''), PStr [0xD83D, 0xDE00])]"
proof -
  let ?a1 = "PDict [(PInt 1, PStr (str ''a''))]"
  let ?a2 = "PDict [(PStr (str ''1''), PStr (str ''a''))]"
  let ?b1 = "PDict [(PStr (str ''files_changed''), PTuple [PStr (str ''src/module.py'')])]"
  let ?b2 = "PDict [(PStr (str ''files_changed''), PList [PStr (str ''src/module.py'')])]"
  let ?c1 = "PDict [(PStr (str ''k''), PStr [0xD83D, 0xDE00])]"
  let ?c2 = "PDict [(PStr (str ''k''), PStr [0x1F600])]"
  have s: "serializable ?a1" "serializable ?b1" "serializable ?c1" by simp_all
  have j: "json_like example_frepr example_fparse ?a2" "json_like example_frepr example_fparse ?b2"
    "json_like example_frepr example_fparse ?c2"
    using str_ascii by (simp_all add: valid_str_def)
  have p: "pretty example_frepr 0 ?a1 = pretty example_frepr 0 ?a2"
    "pretty example_frepr 0 ?b1 = pretty example_frepr 0 ?b2"
    "pretty example_frepr 0 ?c1 = pretty example_frepr 0 ?c2"
    by (simp_all add: intstr_1 py_encode_basestring_ascii_def escape_char_def)
  have n: "?a2 \<noteq> ?a1" "?b2 \<noteq> ?b1" "?c2 \<noteq> ?c1" by simp_all
  from write_example [OF s(1)] p(1) json_loads_pretty [OF j(1)]
  have a: "fst (write_json_log example_frepr ?a1 ''logs'' ''x.json'' example_world) = Inr PNone"
    "read_json example_fparse (path_join ''logs'' ''x.json'')
        (snd (write_json_log example_frepr ?a1 ''logs'' ''x.json'' example_world)) = Inr ?a2"
    by simp_all
  from write_example [OF s(2)] p(2) json_loads_pretty [OF j(2)]
  have b: "read_json example_fparse (path_join ''logs'' ''x.json'')
        (snd (write_json_log example_frepr ?b1 ''logs'' ''x.json'' example_world)) = Inr ?b2"
    by simp
  from write_example [OF s(3)] p(3) json_loads_pretty [OF j(3)]
  have c: "read_json example_fparse (path_join ''logs'' ''x.json'')
        (snd (write_json_log example_frepr ?c1 ''logs'' ''x.json'' example_world)) = Inr ?c2"
    by simp
  from s a b c n show ?thesis by blast
qed

text \<open>
  Claim C1, as the code has it: let the record be built from \<^verbatim>\<open>None\<close>, booleans, integers,
  floats, strings, lists and dictionaries with string keys (\<open>json_like\<close>: no tuple, no
  NaN, every finite float written by \<^verbatim>\<open>repr\<close> as a number that \<^verbatim>\<open>float\<close> reads back, no
  high surrogate directly before a low surrogate in a string). For every output
  directory and filename for which the write succeeds, reading the file at the join of
  the output directory and the filename and parsing it gives the record back, its keys
  in their order.
\<close>

theorem write_json_log_round_trip:
  assumes "json_like frepr fparse data"
    and "fst (write_json_log frepr data output_dir filename w) = Inr v"
  shows "read_json fparse (path_join output_dir filename)
           (snd (write_json_log frepr data output_dir filename w)) = Inr data"
proof -
  from write_json_log_document [OF assms(2)]
  have s: "serializable data"
    and r: "open_r (path_join output_dir filename)
      (snd (write_json_log frepr data output_dir filename w)) = Inr (fst (iterencode frepr 0 data))"
    by simp_all
  from encode_pretty(1) [OF s, of frepr 0] r json_loads_pretty [OF assms(1)]
  show ?thesis by (simp add: read_json_def)
qed

text \<open>
  Claim C1, a run: the metrics record, with its two floats, written and read back.
\<close>

theorem write_json_log_round_trip_witness:
  "json_like example_frepr example_fparse (run_sonarqube_analysis ''.'' ''PROJECT_KEY'' ''TOKEN'')
   \<and> fst (write_json_log example_frepr (run_sonarqube_analysis ''.'' ''PROJECT_KEY'' ''TOKEN'')
         ''logs'' ''sonar_metrics.json'' example_world) = Inr PNone
   \<and> read_json example_fparse (path_join ''logs'' ''sonar_metrics.json'')
        (snd (write_json_log example_frepr (run_sonarqube_analysis ''.'' ''PROJECT_KEY'' ''TOKEN'')
           ''logs'' ''sonar_metrics.json'' example_world)) =
       Inr (run_sonarqube_analysis ''.'' ''PROJECT_KEY'' ''TOKEN'')"
proof -
  let ?data = "run_sonarqube_analysis ''.'' ''PROJECT_KEY'' ''TOKEN''"
  have h1: "json_like example_frepr example_fparse ?data" by (rule json_like_sonar)
  have h2: "fst (write_json_log example_frepr ?data ''logs'' ''sonar_metrics.json'' example_world)
      = Inr PNone" by code_simp
  from write_json_log_round_trip [OF h1 h2] h1 h2 show ?thesis by blast
qed

text \<open>
  Claim C2 says that a successful write returns the path of the document it wrote. The
  function is declared \<^verbatim>\<open>-> None\<close> and has no \<^verbatim>\<open>return\<close>: writing the coverage record to
  \<^verbatim>\<open>logs/coverage.json\<close> succeeds and returns \<^verbatim>\<open>None\<close>, not the path.
\<close>

theorem write_json_log_returns_path_counterexample:
  "fst (write_json_log example_frepr coverage ''logs'' ''coverage.json'' example_world) = Inr PNone
   \<and> fst (write_json_log example_frepr coverage ''logs'' ''coverage.json'' example_world)
       \<noteq> Inr (PStr (str (path_join ''logs'' ''coverage.json'')))"
  by code_simp

text \<open>
  Claim C2, as the code has it: every write that succeeds returns \<^verbatim>\<open>None\<close>; the path written
  to, the join of the output directory and the filename, is reported in the notice
  \<^verbatim>\<open>[info] Wrote log to <path>\<close>, the one line the call prints.
\<close>

theorem write_json_log_returns_None:
  assumes "fst (write_json_log frepr data output_dir filename w) = Inr v"
  shows "v = PNone \<and>
    stdout (snd (write_json_log frepr data output_dir filename w)) =
      stdout w @ [''[info] Wrote log to '' @ path_join output_dir filename]"
proof (cases rule: write_json_log_stages [of output_dir w frepr data filename])
  case (written w1 doc out)
  from makedirs_world [OF written(1)] have "stdout w1 = stdout w"
    by (metis world.select_convs(3) world.surjective world.update_convs(1))
  with written(6) assms show ?thesis by (simp add: print_line_def)
qed (use assms in simp_all)

text \<open>
  Claim C2, a run: the coverage record written to \<^verbatim>\<open>logs/coverage.json\<close>.
\<close>

theorem write_json_log_returns_None_witness:
  "fst (write_json_log example_frepr coverage ''logs'' ''coverage.json'' example_world) = Inr PNone
   \<and> stdout (snd (write_json_log example_frepr coverage ''logs'' ''coverage.json'' example_world)) =
      [''[info] Wrote log to logs/coverage.json'']"
proof -
  have h: "fst (write_json_log example_frepr coverage ''logs'' ''coverage.json'' example_world) = Inr PNone"
    by code_simp
  from write_json_log_returns_None [OF h] h show ?thesis
    by (simp add: example_world_def path_join_def)
qed







text \<open>
  Claim C5. For every record, output directory and filename, a second write with the same
  arguments leaves the filesystem (its directories and the text of every file) as the
  first write left it. This holds for every outcome of the first write, also a failure.
\<close>

theorem write_json_log_idempotent:
  "fs (snd (write_json_log frepr data output_dir filename
        (snd (write_json_log frepr data output_dir filename w)))) =
   fs (snd (write_json_log frepr data output_dir filename w))"
proof (cases rule: write_json_log_stages [of output_dir w frepr data filename])
  case (makedirs_fails e w1)
  from makedirs_again [OF makedirs_fails(1)] makedirs_fails(2) show ?thesis
    by (simp add: write_json_log_def)
next
  case (open_fails e w1)
  from makedirs_again [OF open_fails(1)] open_fails(2,3) show ?thesis
    by (simp add: write_json_log_def)
next
  case (dump_fails e w1 doc out)
  from makedirs_world [OF dump_fails(1)] have c: "cwd w1 = cwd w"
    by (metis world.select_convs(2) world.surjective world.update_convs(1))
  from write_json_log_again_aux [OF dump_fails(1,2,3,4,5), of "w1\<lparr>fs := (fs w1)(doc \<mapsto> File out)\<rparr>"]
    dump_fails(6) c show ?thesis by simp
next
  case (written w1 doc out)
  from makedirs_world [OF written(1)] have c: "cwd w1 = cwd w"
    by (metis world.select_convs(2) world.surjective world.update_convs(1))
  from write_json_log_again_aux [OF written(1,2,3,4,5),
      of "print_line (''[info] Wrote log to '' @ path_join output_dir filename)
            (w1\<lparr>fs := (fs w1)(doc \<mapsto> File out)\<rparr>)"]
    written(6) c show ?thesis by (simp add: print_line_def)
qed



text \<open>
  Claim C7. A write returns only for a serializable record, and the text of the
  document it leaves at the join of the output directory and the filename is the layout
  \<open>pretty\<close>: one item per line, two spaces of indentation for every level, the members
  of a dictionary in the order of the record.
\<close>

theorem write_json_log_document_layout:
  assumes "fst (write_json_log frepr data output_dir filename w) = Inr v"
  shows "serializable data \<and>
    open_r (path_join output_dir filename)
      (snd (write_json_log frepr data output_dir filename w)) = Inr (pretty frepr 0 data)"
proof -
  from write_json_log_document [OF assms]
  have s: "serializable data"
    and r: "open_r (path_join output_dir filename)
      (snd (write_json_log frepr data output_dir filename w)) = Inr (fst (iterencode frepr 0 data))"
    by simp_all
  from encode_pretty(1) [OF s, of frepr 0] s r show ?thesis by simp
qed

text \<open>
  Claim C7, a run: the commit metadata, with a list inside the dictionary.
\<close>

theorem write_json_log_document_layout_witness:
  \<open>fst (write_json_log example_frepr (commit_metadata (clock example_world 0)) ''logs''
      ''commit_metadata.json'' example_world) = Inr PNone
   \<and> open_r ''logs/commit_metadata.json''
      (snd (write_json_log example_frepr (commit_metadata (clock example_world 0)) ''logs''
         ''commit_metadata.json'' example_world)) =
     Inr ''{\<newline>  "commit_hash": "abc123",\<newline>  "author": "developer@example.com",\<newline>  "timestamp": "2024-01-02T03:04:05",\<newline>  "message": "Implement feature X",\<newline>  "files_changed": [\<newline>    "src/module.py"\<newline>  ]\<newline>}''\<close>
proof -
  let ?data = "commit_metadata (clock example_world 0)"
  have h: "fst (write_json_log example_frepr ?data ''logs'' ''commit_metadata.json'' example_world)
      = Inr PNone" by code_simp
  have p: "path_join ''logs'' ''commit_metadata.json'' = ''logs/commit_metadata.json''" by code_simp
  have t: \<open>pretty example_frepr 0 ?data = ''{\<newline>  "commit_hash": "abc123",\<newline>  "author": "developer@example.com",\<newline>  "timestamp": "2024-01-02T03:04:05",\<newline>  "message": "Implement feature X",\<newline>  "files_changed": [\<newline>    "src/module.py"\<newline>  ]\<newline>}''\<close>
    by code_simp
  from write_json_log_document_layout [OF h] h show ?thesis
    unfolding p t by blast
qed

text \<open>
  Claim C8. Let the \<^verbatim>\<open>repr\<close> of the float \<^verbatim>\<open>85.0\<close> be \<^verbatim>\<open>85.0\<close>, let \<^verbatim>\<open>logs\<close> in the working
  directory not be a regular file and none of the four document names in it a directory.
  Then \<open>main\<close> with the output directory \<^verbatim>\<open>./logs\<close> succeeds, and the filesystem it leaves
  differs from the one it found in exactly this: \<^verbatim>\<open>logs\<close> is a directory, and
  \<^verbatim>\<open>commit_metadata.json\<close>, \<^verbatim>\<open>sonar_metrics.json\<close>, \<^verbatim>\<open>ai_interactions.json\<close> and
  \<^verbatim>\<open>coverage.json\<close> in it hold the documents of their records; the text of
  \<^verbatim>\<open>coverage.json\<close> is the record with 1000 total lines, 850 covered lines and 85.0
  percent.
\<close>

theorem main_writes_four_documents:
  assumes "frepr 0x4055400000000000 = ''85.0''"
    and "\<forall>x. fs w (cwd w @ [''logs'']) \<noteq> Some (File x)"
    and "\<forall>n \<in> set [''commit_metadata.json'', ''sonar_metrics.json'', ''ai_interactions.json'',
            ''coverage.json'']. fs w (cwd w @ [''logs'', n]) \<noteq> Some Dir"
  shows \<open>fst (main frepr repo_path ''./logs'' w) = Inr PNone \<and>
    fs (snd (main frepr repo_path ''./logs'' w)) =
      (fs w)(cwd w @ [''logs''] \<mapsto> Dir,
        cwd w @ [''logs'', ''commit_metadata.json''] \<mapsto>
          File (pretty frepr 0 (commit_metadata (clock w (reads w)))),
        cwd w @ [''logs'', ''sonar_metrics.json''] \<mapsto>
          File (pretty frepr 0 (run_sonarqube_analysis repo_path ''PROJECT_KEY'' ''TOKEN'')),
        cwd w @ [''logs'', ''ai_interactions.json''] \<mapsto>
          File (pretty frepr 0 (fst (capture_ai_interactions
            (str ''How to implement a binary search?'')
            (str ''Here is a Python implementation of binary search...'')
            (w\<lparr>reads := Suc (reads w)\<rparr>)))),
        cwd w @ [''logs'', ''coverage.json''] \<mapsto>
          File ''{\<newline>  "total_lines": 1000,\<newline>  "covered_lines": 850,\<newline>  "coverage_percent": 85.0\<newline>}'')\<close>
proof -
  let ?L = "cwd w @ [''logs'']"
  let ?ai = "fst (capture_ai_interactions
            (str ''How to implement a binary search?'')
            (str ''Here is a Python implementation of binary search...'')
            (w\<lparr>reads := Suc (reads w)\<rparr>))"
  let ?w1 = "w\<lparr>stdout := stdout w @ [''[info] Starting data collection for repository: '' @ repo_path],
             reads := Suc (reads w)\<rparr>"
  from assms(3) have nd: "fs w (cwd w @ [''logs'', ''commit_metadata.json'']) \<noteq> Some Dir"
    "fs w (cwd w @ [''logs'', ''sonar_metrics.json'']) \<noteq> Some Dir"
    "fs w (cwd w @ [''logs'', ''ai_interactions.json'']) \<noteq> Some Dir"
    "fs w (cwd w @ [''logs'', ''coverage.json'']) \<noteq> Some Dir" by simp_all
  have u: "utcnow (print_line (''[info] Starting data collection for repository: '' @ repo_path) w)
      = (clock w (reads w), ?w1)"
    by (simp add: utcnow_def print_line_def)
  obtain w2 where s1: "write_json_log frepr (commit_metadata (clock w (reads w))) ''./logs''
        ''commit_metadata.json'' ?w1 = (Inr PNone, w2)"
    and w2: "fs w2 = (fs w)(?L \<mapsto> Dir, cwd w @ [''logs'', ''commit_metadata.json''] \<mapsto>
          File (pretty frepr 0 (commit_metadata (clock w (reads w)))))"
      "cwd w2 = cwd w" "clock w2 = clock w" "reads w2 = Suc (reads w)"
    using write_in_logs [of "''commit_metadata.json''" "commit_metadata (clock w (reads w))" ?w1 frepr,
        OF valid_names(1) serializable_records(1)]
      assms(2) nd by simp
  obtain w3 where s2: "write_json_log frepr (run_sonarqube_analysis repo_path ''PROJECT_KEY'' ''TOKEN'')
        ''./logs'' ''sonar_metrics.json'' w2 = (Inr PNone, w3)"
    and w3: "fs w3 = (fs w2)(?L \<mapsto> Dir, cwd w @ [''logs'', ''sonar_metrics.json''] \<mapsto>
          File (pretty frepr 0 (run_sonarqube_analysis repo_path ''PROJECT_KEY'' ''TOKEN'')))"
      "cwd w3 = cwd w" "clock w3 = clock w" "reads w3 = Suc (reads w)"
    using write_in_logs [of "''sonar_metrics.json''"
        "run_sonarqube_analysis repo_path ''PROJECT_KEY'' ''TOKEN''" w2 frepr,
        OF valid_names(2) serializable_records(2)] w2 nd by simp
  obtain w4 where c: "capture_ai_interactions (str ''How to implement a binary search?'')
        (str ''Here is a Python implementation of binary search...'') w3 = (?ai, w4)"
    and w4: "fs w4 = fs w3" "cwd w4 = cwd w"
    using w3 by (simp add: capture_ai_interactions_def utcnow_def)
  obtain w5 where s3: "write_json_log frepr ?ai ''./logs'' ''ai_interactions.json'' w4 = (Inr PNone, w5)"
    and w5: "fs w5 = (fs w4)(?L \<mapsto> Dir, cwd w @ [''logs'', ''ai_interactions.json''] \<mapsto>
          File (pretty frepr 0 ?ai))" "cwd w5 = cwd w"
    using write_in_logs [of "''ai_interactions.json''" ?ai w4 frepr,
        OF valid_names(3) serializable_records(3)]
      w4 w3 w2 nd by simp
  obtain w6 where s4: "write_json_log frepr coverage ''./logs'' ''coverage.json'' w5 = (Inr PNone, w6)"
    and w6: "fs w6 = (fs w5)(?L \<mapsto> Dir, cwd w @ [''logs'', ''coverage.json''] \<mapsto>
          File (pretty frepr 0 coverage))"
    using write_in_logs [of "''coverage.json''" coverage w5 frepr,
        OF valid_names(4) serializable_records(4)]
      w5 w4 w3 w2 nd by simp
  have m: "main frepr repo_path ''./logs'' w =
      (Inr PNone, print_line ''[info] Data collection completed.'' w6)"
    by (simp only: main_def Let_def u s1 s2 c s3 s4 and_then_def prod.case sum.case)
  have "fs w6 = (fs w)(?L \<mapsto> Dir,
        cwd w @ [''logs'', ''commit_metadata.json''] \<mapsto>
          File (pretty frepr 0 (commit_metadata (clock w (reads w)))),
        cwd w @ [''logs'', ''sonar_metrics.json''] \<mapsto>
          File (pretty frepr 0 (run_sonarqube_analysis repo_path ''PROJECT_KEY'' ''TOKEN'')),
        cwd w @ [''logs'', ''ai_interactions.json''] \<mapsto> File (pretty frepr 0 ?ai),
        cwd w @ [''logs'', ''coverage.json''] \<mapsto> File (pretty frepr 0 coverage))"
    unfolding w6 w5 w4 w3 w2 by (auto simp: fun_eq_iff)
  with m pretty_coverage [of frepr, OF assms(1)] show ?thesis
    by (simp add: print_line_def)
qed

text \<open>
  Claim C8, a run in a working directory without \<^verbatim>\<open>logs\<close>.
\<close>

theorem main_writes_four_documents_witness:
  \<open>example_frepr 0x4055400000000000 = ''85.0''
   \<and> fs example_world (cwd example_world @ [''logs'']) = None
   \<and> fs example_world (cwd example_world @ [''logs'', ''commit_metadata.json'']) = None
   \<and> fs example_world (cwd example_world @ [''logs'', ''sonar_metrics.json'']) = None
   \<and> fs example_world (cwd example_world @ [''logs'', ''ai_interactions.json'']) = None
   \<and> fs example_world (cwd example_world @ [''logs'', ''coverage.json'']) = None
   \<and> fst (main example_frepr ''.'' ''./logs'' example_world) = Inr PNone
   \<and> fs (snd (main example_frepr ''.'' ''./logs'' example_world)) [''home'', ''logs''] = Some Dir
   \<and> fs (snd (main example_frepr ''.'' ''./logs'' example_world)) [''home'', ''logs'', ''coverage.json''] =
        Some (File ''{\<newline>  "total_lines": 1000,\<newline>  "covered_lines": 850,\<newline>  "coverage_percent": 85.0\<newline>}'')
   \<and> fs (snd (main example_frepr ''.'' ''./logs'' example_world)) [''home'', ''logs'', ''other.json''] = None\<close>
proof -
  have h1: "example_frepr 0x4055400000000000 = ''85.0''" by code_simp
  have c: "cwd example_world = [''home'']" by (simp add: example_world_def)
  have f: "fs example_world (cwd example_world @ [''logs'']) = None"
    "fs example_world (cwd example_world @ [''logs'', ''commit_metadata.json'']) = None"
    "fs example_world (cwd example_world @ [''logs'', ''sonar_metrics.json'']) = None"
    "fs example_world (cwd example_world @ [''logs'', ''ai_interactions.json'']) = None"
    "fs example_world (cwd example_world @ [''logs'', ''coverage.json'']) = None"
    "fs example_world [''home'', ''logs'', ''other.json''] = None"
    by (simp_all add: example_world_def)
  have h2: "\<forall>x. fs example_world (cwd example_world @ [''logs'']) \<noteq> Some (File x)"
    using f by simp
  have h3: "\<forall>n \<in> set [''commit_metadata.json'', ''sonar_metrics.json'', ''ai_interactions.json'',
            ''coverage.json'']. fs example_world (cwd example_world @ [''logs'', n]) \<noteq> Some Dir"
    using f by simp
  from main_writes_four_documents [of example_frepr example_world "''.''", OF h1 h2 h3]
  have "fst (main example_frepr ''.'' ''./logs'' example_world) = Inr PNone"
    \<open>fs (snd (main example_frepr ''.'' ''./logs'' example_world)) [''home'', ''logs''] = Some Dir\<close>
    \<open>fs (snd (main example_frepr ''.'' ''./logs'' example_world)) [''home'', ''logs'', ''coverage.json''] =
        Some (File ''{\<newline>  "total_lines": 1000,\<newline>  "covered_lines": 850,\<newline>  "coverage_percent": 85.0\<newline>}'')\<close>
    \<open>fs (snd (main example_frepr ''.'' ''./logs'' example_world)) [''home'', ''logs'', ''other.json''] = None\<close>
    using f(6) by (simp_all add: c)
  with h1 f show ?thesis by blast
qed

text \<open>
  Claim C9. For every prompt and response, the record \<open>capture_ai_interactions\<close>
  returns has the prompt under \<^verbatim>\<open>"prompt"\<close> and the response under \<^verbatim>\<open>"response"\<close>, both
  verbatim, and its keys are \<^verbatim>\<open>"timestamp"\<close>, \<^verbatim>\<open>"prompt"\<close> and \<^verbatim>\<open>"response"\<close>, no other.
\<close>

theorem capture_ai_interactions_fields:
  "dict_get (fst (capture_ai_interactions prompt response w)) (PStr (str ''prompt'')) = Some (PStr prompt)
   \<and> dict_get (fst (capture_ai_interactions prompt response w)) (PStr (str ''response'')) = Some (PStr response)
   \<and> dict_keys (fst (capture_ai_interactions prompt response w)) =
       [PStr (str ''timestamp''), PStr (str ''prompt''), PStr (str ''response'')]"
  by (simp add: capture_ai_interactions_def utcnow_def dict_get_def dict_keys_def str_def)

text \<open>
  Claim C10. For every pair of argument triples (repository path, project key, token),
  \<open>run_sonarqube_analysis\<close> returns the same metrics record: the result is a constant,
  so the token never influences it.
\<close>

theorem run_sonarqube_analysis_constant:
  "run_sonarqube_analysis repo_path project_key token =
   run_sonarqube_analysis repo_path' project_key' token'"
  by (simp add: run_sonarqube_analysis_def)

end
